theory Spec2Isabelle
  imports Main
begin

section \<open>LDAPLynx: the LDIF parser and the console around it\<close>

text \<open>
  A shallow embedding of \<^verbatim>\<open>src/ldaplynx.py\<close>: the string primitives the parser uses
  (\<^verbatim>\<open>str.splitlines\<close>, \<^verbatim>\<open>str.strip\<close>, \<^verbatim>\<open>str.startswith\<close>, \<^verbatim>\<open>in\<close>,
  \<^verbatim>\<open>str.split(":", 1)\<close>), the function \<^verbatim>\<open>parse_ldif\<close>, and the methods
  \<^verbatim>\<open>detect_membership_attributes\<close>, \<^verbatim>\<open>parse\<close> and \<^verbatim>\<open>export\<close> of the class
  \<^verbatim>\<open>LDIFConsole\<close>.

  Conventions of the model.
  \<^item> A Python \<^verbatim>\<open>str\<close> is a \<^typ>\<open>string\<close>; a \<^typ>\<open>char\<close> stands for a code point below
    256, so the model covers the texts whose code points are all in that range.
  \<^item> \<^verbatim>\<open>None\<close> is \<^term>\<open>None\<close>: \<^verbatim>\<open>current_dn\<close> and \<^verbatim>\<open>self.ldif_content\<close> are options.
  \<^item> A raised exception is the result \<^term>\<open>None\<close> of a function into \<open>option\<close>; the only
    operation of the parser that can raise is the index \<^verbatim>\<open>[1]\<close> into the result of
    \<^verbatim>\<open>split\<close>.
  \<^item> A Python \<^verbatim>\<open>set\<close> is a list without duplicates, extended by \<^const>\<open>List.insert\<close>;
    Python leaves the iteration order of a set open, so the theorems speak about the
    elements (\<^const>\<open>set\<close>) and about \<^const>\<open>distinct\<close>, never about positions.
\<close>

subsection \<open>String primitives\<close>

text \<open>The line boundaries of \<^verbatim>\<open>str.splitlines\<close> below code point 256.\<close>

definition is_linebreak :: "char \<Rightarrow> bool" where
  "is_linebreak c \<longleftrightarrow>
     c \<in> set [CHR 0x0A, CHR 0x0B, CHR 0x0C, CHR 0x0D, CHR 0x1C, CHR 0x1D, CHR 0x1E, CHR 0x85]"

text \<open>
  \<open>split_from cur s\<close> reads \<open>s\<close> with the current line collected, reversed, in \<open>cur\<close>.
  A carriage return followed by a line feed is one boundary; the text after the last
  boundary is a line only when it is not empty.
\<close>

fun split_from :: "string \<Rightarrow> string \<Rightarrow> string list" where
  "split_from cur [] = (if cur = [] then [] else [rev cur])"
| "split_from cur (c # cs) =
     (if is_linebreak c then
        rev cur # (case cs of
                     d # ds \<Rightarrow>
                       if c = CHR 0x0D \<and> d = CHR 0x0A then split_from [] ds
                       else split_from [] cs
                   | [] \<Rightarrow> split_from [] cs)
      else split_from (c # cur) cs)"

definition splitlines :: "string \<Rightarrow> string list" where
  "splitlines s = split_from [] s"

text \<open>The characters \<^verbatim>\<open>str.strip()\<close> removes (\<^verbatim>\<open>str.isspace\<close>) below code point 256.\<close>

definition is_space :: "char \<Rightarrow> bool" where
  "is_space c \<longleftrightarrow>
     c \<in> set [CHR 0x09, CHR 0x0A, CHR 0x0B, CHR 0x0C, CHR 0x0D, CHR 0x1C, CHR 0x1D, CHR 0x1E,
              CHR 0x1F, CHR 0x20, CHR 0x85, CHR 0xA0]"

definition strip :: "string \<Rightarrow> string" where
  "strip s = rev (dropWhile is_space (rev (dropWhile is_space s)))"

text \<open>\<^verbatim>\<open>line.startswith(p)\<close>.\<close>

definition startswith :: "string \<Rightarrow> string \<Rightarrow> bool" where
  "startswith line p \<longleftrightarrow> take (length p) line = p"

text \<open>\<^verbatim>\<open>sub in line\<close>: \<open>sub\<close> occurs in \<open>line\<close> as a contiguous piece.\<close>

fun contains :: "string \<Rightarrow> string \<Rightarrow> bool" where
  "contains sub [] \<longleftrightarrow> sub = []"
| "contains sub (c # cs) \<longleftrightarrow> startswith (c # cs) sub \<or> contains sub cs"

text \<open>
  \<^verbatim>\<open>line.split(":", 1)\<close>: the text before the first colon and the text after it, or the
  line alone when it has no colon.
\<close>

definition before_colon :: "string \<Rightarrow> string" where
  "before_colon line = takeWhile (\<lambda>c. c \<noteq> CHR '':'') line"

definition after_colon :: "string \<Rightarrow> string" where
  "after_colon line = tl (dropWhile (\<lambda>c. c \<noteq> CHR '':'') line)"

definition split_colon :: "string \<Rightarrow> string list" where
  "split_colon line =
     (if CHR '':'' \<in> set line then [before_colon line, after_colon line] else [line])"

text \<open>\<^verbatim>\<open>xs[i]\<close> for a non-negative \<open>i\<close>; \<^term>\<open>None\<close> is the IndexError.\<close>

definition item :: "'a list \<Rightarrow> nat \<Rightarrow> 'a option" where
  "item xs i = (if i < length xs then Some (xs ! i) else None)"

text \<open>\<^verbatim>\<open>line.split(":", 1)[1].strip()\<close>.\<close>

definition value_of :: "string \<Rightarrow> string option" where
  "value_of line = map_option strip (item (split_colon line) 1)"

subsection \<open>The parser \<^verbatim>\<open>parse_ldif\<close>\<close>

datatype etype = User | Group

type_synonym node = "string option \<times> string \<times> etype"

type_synonym edge = "string \<times> string option \<times> string"

text \<open>The local variables of \<^verbatim>\<open>parse_ldif\<close>.\<close>

record pstate =
  uid_to_dn :: "string \<rightharpoonup> string"
  edges :: "edge list"
  nodes :: "node list"
  current_dn :: "string option"
  current_type :: "etype option"

definition init_pstate :: pstate where
  "init_pstate =
     \<lparr>uid_to_dn = Map.empty, edges = [], nodes = [], current_dn = None, current_type = None\<rparr>"

text \<open>
  The body of \<^verbatim>\<open>for attr in membership_attributes\<close> for one attribute.
  \<^verbatim>\<open>if member_dn:\<close> is false for \<^verbatim>\<open>None\<close> and for the empty string.
\<close>

definition member_step :: "string \<Rightarrow> pstate \<Rightarrow> string \<Rightarrow> pstate option" where
  "member_step line s attr =
     (if startswith line (attr @ '':'') then
        (case value_of line of
           None \<Rightarrow> None
         | Some member_value \<Rightarrow>
             (let member_dn = (if attr = ''memberUid'' then uid_to_dn s member_value
                               else Some member_value)
              in case member_dn of
                   None \<Rightarrow> Some s
                 | Some d \<Rightarrow>
                     if d \<noteq> [] then Some (s\<lparr>edges := edges s @ [(d, current_dn s, ''memberOf'')]\<rparr>)
                     else Some s))
      else Some s)"

fun for_attrs :: "string \<Rightarrow> pstate \<Rightarrow> string list \<Rightarrow> pstate option" where
  "for_attrs line s [] = Some s"
| "for_attrs line s (attr # attrs) =
     (case member_step line s attr of None \<Rightarrow> None | Some s' \<Rightarrow> for_attrs line s' attrs)"

text \<open>
  The body of \<^verbatim>\<open>for line in ldif_content.splitlines()\<close>, with the branches in the
  order of the source. In the \<^verbatim>\<open>uid\<close> and \<^verbatim>\<open>cn\<close> branches the third component of
  the node is \<^verbatim>\<open>current_type\<close>, which the condition of the branch has just fixed.
\<close>

definition step :: "string list \<Rightarrow> pstate \<Rightarrow> string \<Rightarrow> pstate option" where
  "step membership_attributes s raw =
     (let line = strip raw in
      if startswith line ''dn:'' then
        (case value_of line of
           None \<Rightarrow> None
         | Some v \<Rightarrow> Some (s\<lparr>current_dn := Some v, current_type := None\<rparr>))
      else if startswith line ''objectClass:'' then
        (if contains ''inetOrgPerson'' line \<or> contains ''posixAccount'' line then
           Some (s\<lparr>current_type := Some User\<rparr>)
         else if contains ''groupOfNames'' line \<or> contains ''posixGroup'' line
                 \<or> contains ''groupOfMembers'' line then
           Some (s\<lparr>current_type := Some Group\<rparr>)
         else Some s)
      else if startswith line ''uid:'' \<and> current_type s = Some User then
        (case value_of line of
           None \<Rightarrow> None
         | Some uid \<Rightarrow> Some (s\<lparr>nodes := List.insert (current_dn s, uid, User) (nodes s)\<rparr>))
      else if startswith line ''cn:'' \<and> current_type s = Some Group then
        (case value_of line of
           None \<Rightarrow> None
         | Some cn \<Rightarrow> Some (s\<lparr>nodes := List.insert (current_dn s, cn, Group) (nodes s)\<rparr>))
      else for_attrs line s membership_attributes)"

fun for_lines :: "string list \<Rightarrow> pstate \<Rightarrow> string list \<Rightarrow> pstate option" where
  "for_lines membership_attributes s [] = Some s"
| "for_lines membership_attributes s (raw # rest) =
     (case step membership_attributes s raw of
        None \<Rightarrow> None
      | Some s' \<Rightarrow> for_lines membership_attributes s' rest)"

definition parse_ldif :: "string \<Rightarrow> string list \<Rightarrow> (node list \<times> edge list) option" where
  "parse_ldif ldif_content membership_attributes =
     (case for_lines membership_attributes init_pstate (splitlines ldif_content) of
        None \<Rightarrow> None
      | Some s \<Rightarrow> Some (nodes s, edges s))"

subsection \<open>The console \<^verbatim>\<open>LDIFConsole\<close>\<close>

text \<open>
  The fields of the object that the modelled methods read or write. What a method prints
  and what it writes to files is returned as a list of effects, in the order of the
  source; a file is opened with mode \<^verbatim>\<open>"w"\<close> and the model takes every such write to
  succeed.
\<close>

record console =
  ldif_content :: "string option"
  membership_attributes :: "string list"
  self_nodes :: "node list"
  self_edges :: "edge list"

datatype effect =
    No_file_loaded
  | Parsed nat nat
  | No_parsed_data
  | Write_file string string
  | Files_saved string string

text \<open>\<^verbatim>\<open>__init__\<close>.\<close>

definition init_console :: console where
  "init_console =
     \<lparr>ldif_content = None, membership_attributes = [''member'', ''memberUid''],
      self_nodes = [], self_edges = []\<rparr>"

text \<open>\<^verbatim>\<open>not self.ldif_content\<close>: the content is \<^verbatim>\<open>None\<close> or the empty string.\<close>

definition no_content :: "string option \<Rightarrow> bool" where
  "no_content c \<longleftrightarrow> (case c of None \<Rightarrow> True | Some t \<Rightarrow> t = [])"

definition common_attributes :: "string list" where
  "common_attributes = [''member'', ''memberUid'', ''uniqueMember'', ''isMemberOf'', ''memberOf'']"

text \<open>The body of the loop of \<^verbatim>\<open>detect_membership_attributes\<close>.\<close>

definition detect_step :: "string list \<Rightarrow> string \<Rightarrow> string list" where
  "detect_step detected_attributes raw =
     (let line = strip raw in
      if CHR '':'' \<in> set line then
        (case item (split_colon line) 0 of
           None \<Rightarrow> detected_attributes
         | Some attribute \<Rightarrow>
             if attribute \<in> set common_attributes then List.insert attribute detected_attributes
             else detected_attributes)
      else detected_attributes)"

definition detect_membership_attributes :: "console \<Rightarrow> string list" where
  "detect_membership_attributes self =
     (case ldif_content self of
        None \<Rightarrow> []
      | Some t \<Rightarrow> if t = [] then [] else foldl detect_step [] (splitlines t))"

text \<open>\<^verbatim>\<open>parse\<close>: the new object and what was printed, or \<^term>\<open>None\<close> for an exception.\<close>

definition parse :: "console \<Rightarrow> (console \<times> effect list) option" where
  "parse self =
     (case ldif_content self of
        None \<Rightarrow> Some (self, [No_file_loaded])
      | Some t \<Rightarrow>
          if t = [] then Some (self, [No_file_loaded])
          else (case parse_ldif t (membership_attributes self) of
                  None \<Rightarrow> None
                | Some (ns, es) \<Rightarrow>
                    Some (self\<lparr>self_nodes := ns, self_edges := es\<rparr>,
                          [Parsed (length ns) (length es)])))"

text \<open>The rows of the two tables; an f-string prints \<^verbatim>\<open>None\<close> as the word \<^verbatim>\<open>None\<close>.\<close>

definition str_dn :: "string option \<Rightarrow> string" where
  "str_dn d = (case d of None \<Rightarrow> ''None'' | Some x \<Rightarrow> x)"

definition str_type :: "etype \<Rightarrow> string" where
  "str_type t = (case t of User \<Rightarrow> ''User'' | Group \<Rightarrow> ''Group'')"

definition quoted :: "string \<Rightarrow> string" where
  "quoted x = [CHR 0x22] @ x @ [CHR 0x22]"

definition node_row :: "node \<Rightarrow> string" where
  "node_row n =
     (case n of (dn, label, t) \<Rightarrow>
        quoted (str_dn dn) @ '','' @ quoted label @ '','' @ quoted (str_type t) @ [CHR 0x0A])"

definition edge_row :: "edge \<Rightarrow> string" where
  "edge_row e =
     (case e of (source, target, relation) \<Rightarrow>
        quoted source @ '','' @ quoted (str_dn target) @ '','' @ quoted relation @ [CHR 0x0A])"

text \<open>\<^verbatim>\<open>export\<close>: the guard refuses when either collection is empty.\<close>

definition export :: "console \<Rightarrow> string \<Rightarrow> string \<Rightarrow> effect list" where
  "export self nodes_file edges_file =
     (if self_nodes self = [] \<or> self_edges self = [] then [No_parsed_data]
      else [Write_file nodes_file
              (''Id,Label,Type'' @ [CHR 0x0A] @ concat (map node_row (self_nodes self))),
            Write_file edges_file
              (''Source,Target,Relation'' @ [CHR 0x0A] @ concat (map edge_row (self_edges self))),
            Files_saved nodes_file edges_file])"

subsection \<open>Notions used to state the results\<close>

text \<open>
  What an \<^verbatim>\<open>objectClass\<close> line assigns to the running type, read off the two tests of
  the \<^verbatim>\<open>objectClass\<close> branch of \<^const>\<open>step\<close>: the test for the user classes comes
  first. Every other line assigns nothing.
\<close>

definition assigned_type :: "string \<Rightarrow> etype option" where
  "assigned_type line =
     (if startswith line ''objectClass:'' then
        (if contains ''inetOrgPerson'' line \<or> contains ''posixAccount'' line then Some User
         else if contains ''groupOfNames'' line \<or> contains ''posixGroup'' line
                 \<or> contains ''groupOfMembers'' line then Some Group
         else None)
      else None)"

text \<open>
  The type assigned by the most recent type-assigning line of a list of lines (the last
  one in the list that assigns a type), if there is one.
\<close>

fun governing :: "string list \<Rightarrow> etype option" where
  "governing [] = None"
| "governing (raw # rest) =
     (case governing rest of Some t \<Rightarrow> Some t | None \<Rightarrow> assigned_type (strip raw))"

text \<open>A line that opens an entry.\<close>

definition is_dn_line :: "string \<Rightarrow> bool" where
  "is_dn_line raw \<longleftrightarrow> startswith (strip raw) ''dn:''"

text \<open>
  The edges that the membership loop appends for one line while the table
  \<^verbatim>\<open>uid_to_dn\<close> is empty: one for every configured attribute, in the order of the
  list, that is not \<^verbatim>\<open>memberUid\<close> and is followed by a colon at the start of the line,
  provided the value is not empty.
\<close>

definition line_edges :: "string list \<Rightarrow> string option \<Rightarrow> string \<Rightarrow> edge list" where
  "line_edges attrs dn line =
     map (\<lambda>attr. (strip (after_colon line), dn, ''memberOf''))
       (filter (\<lambda>attr. startswith line (attr @ '':'') \<and> attr \<noteq> ''memberUid''
                        \<and> strip (after_colon line) \<noteq> []) attrs)"

text \<open>
  The entry context of every line of a list of lines: the dn and the running type in
  force when the line is read, starting from a given dn and type. A \<^verbatim>\<open>dn:\<close> line
  sets the dn and clears the type for the lines after it; an \<^verbatim>\<open>objectClass\<close> line
  that assigns a type sets it for the lines after it.
\<close>

fun contexts ::
  "string option \<Rightarrow> etype option \<Rightarrow> string list \<Rightarrow> (string option \<times> etype option \<times> string) list"
where
  "contexts dn ty [] = []"
| "contexts dn ty (raw # rest) =
     (dn, ty, raw) #
       (if is_dn_line raw then contexts (Some (strip (after_colon (strip raw)))) None rest
        else contexts dn (case assigned_type (strip raw) of None \<Rightarrow> ty | Some t \<Rightarrow> Some t) rest)"

text \<open>
  The edges and the nodes one line emits in its context. A line taken by the \<^verbatim>\<open>dn\<close>
  or the \<^verbatim>\<open>objectClass\<close> branch emits nothing; a \<^verbatim>\<open>uid:\<close> line under the type User
  and a \<^verbatim>\<open>cn:\<close> line under the type Group emit one node; every other line emits the
  edges of the membership loop.
\<close>

definition emitted_edges :: "string list \<Rightarrow> string option \<times> etype option \<times> string \<Rightarrow> edge list" where
  "emitted_edges attrs c =
     (case c of (dn, ty, raw) \<Rightarrow>
        if is_dn_line raw \<or> startswith (strip raw) ''objectClass:''
           \<or> (startswith (strip raw) ''uid:'' \<and> ty = Some User)
           \<or> (startswith (strip raw) ''cn:'' \<and> ty = Some Group)
        then []
        else line_edges attrs dn (strip raw))"

definition emitted_nodes :: "string option \<times> etype option \<times> string \<Rightarrow> node list" where
  "emitted_nodes c =
     (case c of (dn, ty, raw) \<Rightarrow>
        if is_dn_line raw \<or> startswith (strip raw) ''objectClass:'' then []
        else if startswith (strip raw) ''uid:'' \<and> ty = Some User
          then [(dn, strip (after_colon (strip raw)), User)]
        else if startswith (strip raw) ''cn:'' \<and> ty = Some Group
          then [(dn, strip (after_colon (strip raw)), Group)]
        else [])"

section \<open>Basic facts about the parser\<close>

lemma startswith_colon: "startswith line (p @ '':'') \<Longrightarrow> CHR '':'' \<in> set line"
proof -
  assume "startswith line (p @ '':'')"
  then have "take (length (p @ '':'')) line = p @ '':''" by (simp add: startswith_def)
  then have "CHR '':'' \<in> set (take (length (p @ '':'')) line)" by simp
  then show ?thesis by (rule in_set_takeD)
qed

lemma value_of_colon: "CHR '':'' \<in> set line \<Longrightarrow> value_of line = Some (strip (after_colon line))"
  by (simp add: value_of_def split_colon_def item_def)

lemma value_of_startswith:
  "startswith line (p @ '':'') \<Longrightarrow> value_of line = Some (strip (after_colon line))"
  by (rule value_of_colon) (rule startswith_colon)

lemma member_step_empty:
  assumes "uid_to_dn s = Map.empty"
  shows "member_step line s attr = Some (s\<lparr>edges := edges s @ line_edges [attr] (current_dn s) line\<rparr>)"
proof (cases "startswith line (attr @ '':'')")
  case True
  then show ?thesis using assms
    by (simp add: member_step_def value_of_startswith line_edges_def)
next
  case False
  then show ?thesis by (simp add: member_step_def line_edges_def)
qed

lemma line_edges_Cons:
  "line_edges (a # attrs) dn line = line_edges [a] dn line @ line_edges attrs dn line"
  by (simp add: line_edges_def)

lemma for_attrs_empty:
  "uid_to_dn s = Map.empty \<Longrightarrow>
   for_attrs line s attrs = Some (s\<lparr>edges := edges s @ line_edges attrs (current_dn s) line\<rparr>)"
proof (induction attrs arbitrary: s)
  case Nil
  then show ?case by (simp add: line_edges_def)
next
  case (Cons a attrs)
  let ?s = "s\<lparr>edges := edges s @ line_edges [a] (current_dn s) line\<rparr>"
  have "uid_to_dn ?s = Map.empty" using Cons.prems by simp
  from Cons.IH [OF this] member_step_empty [OF Cons.prems, of line a]
  show ?case by (simp add: line_edges_Cons [of a attrs])
qed


lemma startswith_Nil [simp]: "startswith line []"
  by (simp add: startswith_def)

lemma startswith_Cons_Cons [simp]:
  "startswith (c # cs) (p # ps) \<longleftrightarrow> c = p \<and> startswith cs ps"
  by (simp add: startswith_def)

lemma startswith_Nil_Cons [simp]: "\<not> startswith [] (p # ps)"
  by (simp add: startswith_def)

lemma objectClass_not_dn: "startswith line ''objectClass:'' \<Longrightarrow> \<not> startswith line ''dn:''"
  by (cases line) auto

lemma step_dn:
  "is_dn_line raw \<Longrightarrow>
   step attrs s raw =
     Some (s\<lparr>current_dn := Some (strip (after_colon (strip raw))), current_type := None\<rparr>)"
  using value_of_startswith [of "strip raw" "''dn''"]
  by (simp add: step_def is_dn_line_def)

lemma step_objectClass:
  "startswith (strip raw) ''objectClass:'' \<Longrightarrow>
   step attrs s raw =
     Some (case assigned_type (strip raw) of None \<Rightarrow> s | Some t \<Rightarrow> s\<lparr>current_type := Some t\<rparr>)"
  using objectClass_not_dn [of "strip raw"]
  by (simp add: step_def assigned_type_def)

lemma step_uid:
  assumes "startswith (strip raw) ''uid:''" and "current_type s = Some User"
  shows "step attrs s raw =
     Some (s\<lparr>nodes := List.insert (current_dn s, strip (after_colon (strip raw)), User) (nodes s)\<rparr>)"
proof -
  have "\<not> startswith (strip raw) ''dn:''" and "\<not> startswith (strip raw) ''objectClass:''"
    using assms(1) by (cases "strip raw"; auto)+
  then show ?thesis
    using assms value_of_startswith [of "strip raw" "''uid''"] by (simp add: step_def)
qed

lemma step_cn:
  assumes "startswith (strip raw) ''cn:''" and "current_type s = Some Group"
  shows "step attrs s raw =
     Some (s\<lparr>nodes := List.insert (current_dn s, strip (after_colon (strip raw)), Group) (nodes s)\<rparr>)"
proof -
  have "\<not> startswith (strip raw) ''dn:''" and "\<not> startswith (strip raw) ''objectClass:''"
    using assms(1) by (cases "strip raw"; auto)+
  then show ?thesis
    using assms value_of_startswith [of "strip raw" "''cn''"] by (simp add: step_def)
qed

lemma step_other:
  assumes "\<not> is_dn_line raw" and "\<not> startswith (strip raw) ''objectClass:''"
    and "\<not> (startswith (strip raw) ''uid:'' \<and> current_type s = Some User)"
    and "\<not> (startswith (strip raw) ''cn:'' \<and> current_type s = Some Group)"
    and "uid_to_dn s = Map.empty"
  shows "step attrs s raw =
     Some (s\<lparr>edges := edges s @ line_edges attrs (current_dn s) (strip raw)\<rparr>)"
  using assms for_attrs_empty [of s "strip raw" attrs]
  by (auto simp add: step_def is_dn_line_def)

lemma step_cases:
  assumes "uid_to_dn s = Map.empty"
  obtains
    "is_dn_line raw"
    "step attrs s raw =
       Some (s\<lparr>current_dn := Some (strip (after_colon (strip raw))), current_type := None\<rparr>)"
  | "\<not> is_dn_line raw" "startswith (strip raw) ''objectClass:''"
    "step attrs s raw =
       Some (case assigned_type (strip raw) of None \<Rightarrow> s | Some t \<Rightarrow> s\<lparr>current_type := Some t\<rparr>)"
  | "\<not> is_dn_line raw" "assigned_type (strip raw) = None"
    "startswith (strip raw) ''uid:''" "current_type s = Some User"
    "step attrs s raw =
       Some (s\<lparr>nodes := List.insert (current_dn s, strip (after_colon (strip raw)), User) (nodes s)\<rparr>)"
  | "\<not> is_dn_line raw" "assigned_type (strip raw) = None"
    "startswith (strip raw) ''cn:''" "current_type s = Some Group"
    "step attrs s raw =
       Some (s\<lparr>nodes := List.insert (current_dn s, strip (after_colon (strip raw)), Group) (nodes s)\<rparr>)"
  | "\<not> is_dn_line raw" "assigned_type (strip raw) = None"
    "\<not> startswith (strip raw) ''objectClass:''"
    "\<not> (startswith (strip raw) ''uid:'' \<and> current_type s = Some User)"
    "\<not> (startswith (strip raw) ''cn:'' \<and> current_type s = Some Group)"
    "step attrs s raw =
       Some (s\<lparr>edges := edges s @ line_edges attrs (current_dn s) (strip raw)\<rparr>)"
proof (cases "is_dn_line raw")
  case True
  then show ?thesis using that(1) step_dn by blast
next
  case nodn: False
  show ?thesis
  proof (cases "startswith (strip raw) ''objectClass:''")
    case True
    then show ?thesis using that(2) nodn step_objectClass by blast
  next
    case nooc: False
    then have at: "assigned_type (strip raw) = None" by (simp add: assigned_type_def)
    show ?thesis
    proof (cases "startswith (strip raw) ''uid:'' \<and> current_type s = Some User")
      case True
      then show ?thesis using that(3) nodn at step_uid by blast
    next
      case nouid: False
      show ?thesis
      proof (cases "startswith (strip raw) ''cn:'' \<and> current_type s = Some Group")
        case True
        then show ?thesis using that(4) nodn at step_cn by blast
      next
        case False
        with at show ?thesis
          using that(5) nodn nooc nouid False step_other [OF nodn nooc nouid False assms] by blast
      qed
    qed
  qed
qed

lemma step_invariant:
  assumes "uid_to_dn s = Map.empty"
  shows "\<exists>s'. step attrs s raw = Some s' \<and> uid_to_dn s' = Map.empty"
  by (cases rule: step_cases [OF assms, of raw attrs]) (auto simp add: assms split: option.splits)

lemma for_lines_invariant:
  "uid_to_dn s = Map.empty \<Longrightarrow>
   \<exists>s'. for_lines attrs s ls = Some s' \<and> uid_to_dn s' = Map.empty"
proof (induction ls arbitrary: s)
  case Nil
  then show ?case by simp
next
  case (Cons raw ls)
  from step_invariant [OF Cons.prems, of attrs raw]
  obtain s1 where s1: "step attrs s raw = Some s1" "uid_to_dn s1 = Map.empty" by blast
  from Cons.IH [OF s1(2)] s1(1) show ?case by simp
qed

lemma for_lines_append:
  "for_lines attrs s (xs @ ys) =
     (case for_lines attrs s xs of None \<Rightarrow> None | Some s' \<Rightarrow> for_lines attrs s' ys)"
  by (induction xs arbitrary: s) (auto split: option.splits)

lemma init_invariant: "uid_to_dn init_pstate = Map.empty"
  by (simp add: init_pstate_def)

lemma parse_ldif_total: "\<exists>ns es. parse_ldif content attrs = Some (ns, es)"
  using for_lines_invariant [OF init_invariant, of attrs "splitlines content"]
  by (auto simp add: parse_ldif_def)


lemma for_lines_type:
  assumes "uid_to_dn s = Map.empty" and "\<forall>raw\<in>set ls. \<not> is_dn_line raw"
  shows "\<exists>s'. for_lines attrs s ls = Some s' \<and> uid_to_dn s' = Map.empty
           \<and> current_dn s' = current_dn s
           \<and> current_type s' = (case governing ls of None \<Rightarrow> current_type s | Some t \<Rightarrow> Some t)"
  using assms
proof (induction ls arbitrary: s)
  case Nil
  then show ?case by simp
next
  case (Cons raw ls)
  have nodn: "\<not> is_dn_line raw" and rest: "\<forall>raw\<in>set ls. \<not> is_dn_line raw"
    using Cons.prems(2) by simp_all
  obtain s1 where s1: "step attrs s raw = Some s1" "uid_to_dn s1 = Map.empty"
    "current_dn s1 = current_dn s"
    "current_type s1 = (case assigned_type (strip raw) of None \<Rightarrow> current_type s | Some t \<Rightarrow> Some t)"
    using nodn
    by (cases rule: step_cases [OF Cons.prems(1), of raw attrs])
       (auto simp add: Cons.prems(1) split: option.splits)
  from Cons.IH [OF s1(2) rest] obtain s' where s': "for_lines attrs s1 ls = Some s'"
    "uid_to_dn s' = Map.empty" "current_dn s' = current_dn s1"
    "current_type s' = (case governing ls of None \<Rightarrow> current_type s1 | Some t \<Rightarrow> Some t)"
    by blast
  show ?case using s1 s' by (auto split: option.splits)
qed

lemma step_edges:
  assumes "uid_to_dn s = Map.empty"
  shows "\<exists>s' new. step attrs s raw = Some s' \<and> uid_to_dn s' = Map.empty
           \<and> edges s' = edges s @ new
           \<and> set new \<subseteq> set (line_edges attrs (current_dn s) (strip raw))"
  by (cases rule: step_cases [OF assms, of raw attrs]) (auto simp add: assms split: option.splits)

lemma step_nodes:
  assumes "uid_to_dn s = Map.empty"
  shows "\<exists>s'. step attrs s raw = Some s' \<and> uid_to_dn s' = Map.empty
           \<and> set (nodes s) \<subseteq> set (nodes s')
           \<and> (distinct (nodes s) \<longrightarrow> distinct (nodes s'))
           \<and> (\<forall>n\<in>set (nodes s'). n \<in> set (nodes s) \<or> fst n = current_dn s)"
  by (cases rule: step_cases [OF assms, of raw attrs]) (auto simp add: assms split: option.splits)

lemma reachable_invariant:
  "for_lines attrs init_pstate before = Some s \<Longrightarrow> uid_to_dn s = Map.empty"
  using for_lines_invariant [OF init_invariant, of attrs before] by simp

lemma for_lines_untyped:
  assumes "uid_to_dn s = Map.empty" and "current_type s = None"
    and "\<forall>raw\<in>set ls. \<not> is_dn_line raw \<and> assigned_type (strip raw) = None"
  shows "\<exists>s'. for_lines attrs s ls = Some s' \<and> uid_to_dn s' = Map.empty
           \<and> current_type s' = None \<and> nodes s' = nodes s"
  using assms
proof (induction ls arbitrary: s)
  case Nil
  then show ?case by simp
next
  case (Cons raw ls)
  have here: "\<not> is_dn_line raw" "assigned_type (strip raw) = None"
    and rest: "\<forall>raw\<in>set ls. \<not> is_dn_line raw \<and> assigned_type (strip raw) = None"
    using Cons.prems(3) by simp_all
  obtain s1 where s1: "step attrs s raw = Some s1" "uid_to_dn s1 = Map.empty"
    "current_type s1 = None" "nodes s1 = nodes s"
    using here Cons.prems(2)
    by (cases rule: step_cases [OF Cons.prems(1), of raw attrs])
       (auto simp add: Cons.prems(1))
  from Cons.IH [OF s1(2) s1(3) rest] s1 show ?case by auto
qed

lemma for_lines_unlabelled:
  assumes "uid_to_dn s = Map.empty"
    and "\<forall>raw\<in>set ls. \<not> is_dn_line raw \<and> \<not> startswith (strip raw) ''uid:''
                      \<and> \<not> startswith (strip raw) ''cn:''"
  shows "\<exists>s'. for_lines attrs s ls = Some s' \<and> uid_to_dn s' = Map.empty \<and> nodes s' = nodes s"
  using assms
proof (induction ls arbitrary: s)
  case Nil
  then show ?case by simp
next
  case (Cons raw ls)
  have here: "\<not> is_dn_line raw" "\<not> startswith (strip raw) ''uid:''"
      "\<not> startswith (strip raw) ''cn:''"
    and rest: "\<forall>raw\<in>set ls. \<not> is_dn_line raw \<and> \<not> startswith (strip raw) ''uid:''
                      \<and> \<not> startswith (strip raw) ''cn:''"
    using Cons.prems(2) by simp_all
  obtain s1 where s1: "step attrs s raw = Some s1" "uid_to_dn s1 = Map.empty"
    "nodes s1 = nodes s"
    using here
    by (cases rule: step_cases [OF Cons.prems(1), of raw attrs])
       (auto simp add: Cons.prems(1) split: option.splits)
  from Cons.IH [OF s1(2) rest] s1 show ?case by auto
qed

lemma uid_line_only:
  "startswith l ''uid:'' \<Longrightarrow>
   \<not> startswith l ''dn:'' \<and> \<not> startswith l ''objectClass:'' \<and> \<not> startswith l ''cn:''"
  by (cases l) auto

lemma cn_line_only:
  "startswith l ''cn:'' \<Longrightarrow>
   \<not> startswith l ''dn:'' \<and> \<not> startswith l ''objectClass:'' \<and> \<not> startswith l ''uid:''"
  by (cases l) auto

lemma startswith_append: "startswith line p \<longleftrightarrow> (\<exists>rest. line = p @ rest)"
proof
  assume "startswith line p"
  then have "line = p @ drop (length p) line"
    by (metis append_take_drop_id startswith_def)
  then show "\<exists>rest. line = p @ rest" ..
next
  assume "\<exists>rest. line = p @ rest"
  then show "startswith line p" by (auto simp add: startswith_def)
qed

lemma before_colon_startswith:
  assumes "startswith line (p @ '':'')" and "CHR '':'' \<notin> set p"
  shows "before_colon line = p"
proof -
  from assms(1) obtain rest where "line = p @ CHR '':'' # rest"
    by (auto simp add: startswith_append)
  then show ?thesis using assms(2) by (auto simp add: before_colon_def takeWhile_tail)
qed

lemma startswith_before_colon:
  assumes "CHR '':'' \<in> set line"
  shows "startswith line (before_colon line @ '':'')"
proof -
  let ?P = "\<lambda>c. c \<noteq> CHR '':''"
  have "dropWhile ?P line \<noteq> []" using assms by (simp add: dropWhile_eq_Nil_conv)
  then obtain c rest where d: "dropWhile ?P line = c # rest" by (cases "dropWhile ?P line") auto
  then have "c = CHR '':''" using hd_dropWhile [of ?P line] by auto
  with d have "line = takeWhile ?P line @ CHR '':'' # rest"
    using takeWhile_dropWhile_id [of ?P line] by simp
  then have "line = (before_colon line @ '':'') @ rest" by (simp add: before_colon_def)
  then show ?thesis using startswith_append by blast
qed

lemma item_split_colon_0:
  "CHR '':'' \<in> set line \<Longrightarrow> item (split_colon line) 0 = Some (before_colon line)"
  by (simp add: item_def split_colon_def)

lemma detect_step_set:
  "set (detect_step acc raw) =
     set acc \<union> {a. a \<in> set common_attributes \<and> CHR '':'' \<in> set (strip raw)
                     \<and> before_colon (strip raw) = a}"
  by (auto simp add: detect_step_def Let_def item_split_colon_0)

lemma detect_step_distinct: "distinct acc \<Longrightarrow> distinct (detect_step acc raw)"
  by (auto simp add: detect_step_def Let_def item_split_colon_0)

lemma foldl_detect_step_set:
  "set (foldl detect_step acc ls) =
     set acc \<union> {a. a \<in> set common_attributes
                     \<and> (\<exists>raw\<in>set ls. CHR '':'' \<in> set (strip raw) \<and> before_colon (strip raw) = a)}"
proof (induction ls arbitrary: acc)
  case Nil
  then show ?case by simp
next
  case (Cons raw ls)
  show ?case unfolding foldl_Cons Cons.IH detect_step_set by auto
qed

lemma foldl_detect_step_distinct:
  "distinct acc \<Longrightarrow> distinct (foldl detect_step acc ls)"
  by (induction ls arbitrary: acc) (simp_all add: detect_step_distinct)

lemma splitlines_Nil: "splitlines [] = []"
  by (simp add: splitlines_def)

lemma for_lines_edges:
  "uid_to_dn s = Map.empty \<Longrightarrow>
   \<exists>s' new. for_lines attrs s ls = Some s' \<and> uid_to_dn s' = Map.empty \<and> edges s' = edges s @ new"
proof (induction ls arbitrary: s)
  case Nil
  then show ?case by simp
next
  case (Cons raw ls)
  from step_edges [OF Cons.prems, of attrs raw]
  obtain s1 new1 where s1: "step attrs s raw = Some s1" "uid_to_dn s1 = Map.empty"
    "edges s1 = edges s @ new1" by blast
  from Cons.IH [OF s1(2)] obtain s' new where "for_lines attrs s1 ls = Some s'"
    "uid_to_dn s' = Map.empty" "edges s' = edges s1 @ new" by blast
  with s1 show ?case by simp
qed

lemma for_lines_nodes:
  "uid_to_dn s = Map.empty \<Longrightarrow>
   \<exists>s'. for_lines attrs s ls = Some s' \<and> uid_to_dn s' = Map.empty
     \<and> set (nodes s) \<subseteq> set (nodes s') \<and> (distinct (nodes s) \<longrightarrow> distinct (nodes s'))"
proof (induction ls arbitrary: s)
  case Nil
  then show ?case by simp
next
  case (Cons raw ls)
  from step_nodes [OF Cons.prems, of attrs raw]
  obtain s1 where s1: "step attrs s raw = Some s1" "uid_to_dn s1 = Map.empty"
    "set (nodes s) \<subseteq> set (nodes s1)" "distinct (nodes s) \<longrightarrow> distinct (nodes s1)" by blast
  from Cons.IH [OF s1(2)] obtain s' where "for_lines attrs s1 ls = Some s'"
    "uid_to_dn s' = Map.empty" "set (nodes s1) \<subseteq> set (nodes s')"
    "distinct (nodes s1) \<longrightarrow> distinct (nodes s')" by blast
  with s1 show ?case by auto
qed

lemma step_twice:
  assumes "uid_to_dn s = Map.empty"
  shows "\<exists>s1 s2 new. step attrs s raw = Some s1 \<and> step attrs s1 raw = Some s2
           \<and> edges s1 = edges s @ new \<and> edges s2 = edges s @ new @ new"
proof (cases rule: step_cases [OF assms, of raw attrs])
  case 1
  then show ?thesis by (simp add: step_dn)
next
  case 2
  then show ?thesis by (simp add: step_objectClass split: option.splits)
next
  case 3
  then show ?thesis by (simp add: step_uid)
next
  case 4
  then show ?thesis by (simp add: step_cn)
next
  case 5
  let ?s1 = "s\<lparr>edges := edges s @ line_edges attrs (current_dn s) (strip raw)\<rparr>"
  have "step attrs ?s1 raw
          = Some (?s1\<lparr>edges := edges ?s1 @ line_edges attrs (current_dn ?s1) (strip raw)\<rparr>)"
    using 5 assms by (intro step_other) auto
  with 5(6) show ?thesis by simp
qed

lemma line_edges_target: "e \<in> set (line_edges attrs dn line) \<Longrightarrow> fst (snd e) = dn"
  by (auto simp add: line_edges_def)

lemma for_lines_preamble:
  assumes "uid_to_dn s = Map.empty" and "current_dn s = None"
    and "\<forall>e\<in>set (edges s). fst (snd e) = None" and "\<forall>n\<in>set (nodes s). fst n = None"
    and "\<forall>l\<in>set ls. \<not> is_dn_line l"
  shows "\<exists>s'. for_lines attrs s ls = Some s' \<and> uid_to_dn s' = Map.empty \<and> current_dn s' = None
           \<and> (\<forall>e\<in>set (edges s'). fst (snd e) = None) \<and> (\<forall>n\<in>set (nodes s'). fst n = None)
           \<and> current_type s' = (case governing ls of None \<Rightarrow> current_type s | Some t \<Rightarrow> Some t)"
  using assms
proof (induction ls arbitrary: s)
  case Nil
  then show ?case by simp
next
  case (Cons raw ls)
  have nodn: "\<not> is_dn_line raw" and rest: "\<forall>l\<in>set ls. \<not> is_dn_line l"
    using Cons.prems(5) by simp_all
  obtain s1 where s1: "step attrs s raw = Some s1" "uid_to_dn s1 = Map.empty"
    "current_dn s1 = None" "\<forall>e\<in>set (edges s1). fst (snd e) = None"
    "\<forall>n\<in>set (nodes s1). fst n = None"
    "current_type s1 = (case assigned_type (strip raw) of None \<Rightarrow> current_type s | Some t \<Rightarrow> Some t)"
    using nodn Cons.prems(2,3,4)
    by (cases rule: step_cases [OF Cons.prems(1), of raw attrs])
       (auto simp add: Cons.prems(1) dest: line_edges_target split: option.splits)
  from Cons.IH [OF s1(2,3,4,5) rest] obtain s' where s': "for_lines attrs s1 ls = Some s'"
    "uid_to_dn s' = Map.empty" "current_dn s' = None" "\<forall>e\<in>set (edges s'). fst (snd e) = None"
    "\<forall>n\<in>set (nodes s'). fst n = None"
    "current_type s' = (case governing ls of None \<Rightarrow> current_type s1 | Some t \<Rightarrow> Some t)"
    by blast
  show ?case using s1 s' by (auto split: option.splits)
qed

lemma for_lines_contexts:
  assumes "uid_to_dn s = Map.empty"
  shows "\<exists>s'. for_lines attrs s ls = Some s' \<and> uid_to_dn s' = Map.empty
           \<and> edges s' = edges s
                @ concat (map (emitted_edges attrs) (contexts (current_dn s) (current_type s) ls))
           \<and> set (nodes s') = set (nodes s)
                \<union> set (concat (map emitted_nodes (contexts (current_dn s) (current_type s) ls)))"
  using assms
proof (induction ls arbitrary: s)
  case Nil
  then show ?case by simp
next
  case (Cons raw ls)
  let ?c = "(current_dn s, current_type s, raw)"
  obtain s1 where s1: "step attrs s raw = Some s1" "uid_to_dn s1 = Map.empty"
    "edges s1 = edges s @ emitted_edges attrs ?c"
    "set (nodes s1) = set (nodes s) \<union> set (emitted_nodes ?c)"
    "contexts (current_dn s) (current_type s) (raw # ls) = ?c # contexts (current_dn s1) (current_type s1) ls"
  proof (cases rule: step_cases [OF Cons.prems, of raw attrs])
    case 1
    then show ?thesis using that Cons.prems
      by (simp add: emitted_edges_def emitted_nodes_def)
  next
    case 2
    then show ?thesis using that Cons.prems
      by (auto simp add: emitted_edges_def emitted_nodes_def split: option.splits)
  next
    case 3
    moreover have "\<not> startswith (strip raw) ''objectClass:''"
      using uid_line_only [OF 3(3)] by simp
    ultimately show ?thesis using that Cons.prems
      by (auto simp add: emitted_edges_def emitted_nodes_def)
  next
    case 4
    moreover have "\<not> startswith (strip raw) ''objectClass:''" "\<not> startswith (strip raw) ''uid:''"
      using cn_line_only [OF 4(3)] by simp_all
    ultimately show ?thesis using that Cons.prems
      by (auto simp add: emitted_edges_def emitted_nodes_def)
  next
    case 5
    then show ?thesis using that Cons.prems
      by (auto simp add: emitted_edges_def emitted_nodes_def)
  qed
  from Cons.IH [OF s1(2)] obtain s' where s': "for_lines attrs s1 ls = Some s'"
    "uid_to_dn s' = Map.empty"
    "edges s' = edges s1
                @ concat (map (emitted_edges attrs) (contexts (current_dn s1) (current_type s1) ls))"
    "set (nodes s') = set (nodes s1)
                \<union> set (concat (map emitted_nodes (contexts (current_dn s1) (current_type s1) ls)))"
    by blast
  show ?case unfolding s1(5) using s1(1,3,4) s' by auto
qed

lemma parse_ldif_emitted:
  "\<exists>ns es. parse_ldif content attrs = Some (ns, es)
     \<and> es = concat (map (emitted_edges attrs) (contexts None None (splitlines content)))
     \<and> set ns = set (concat (map emitted_nodes (contexts None None (splitlines content))))
     \<and> distinct ns"
proof -
  from for_lines_contexts [OF init_invariant, of attrs "splitlines content"]
  obtain s' where s': "for_lines attrs init_pstate (splitlines content) = Some s'"
    "edges s' = concat (map (emitted_edges attrs) (contexts None None (splitlines content)))"
    "set (nodes s') = set (concat (map emitted_nodes (contexts None None (splitlines content))))"
    by (auto simp add: init_pstate_def)
  have "distinct (nodes s')"
    using for_lines_nodes [OF init_invariant, of attrs "splitlines content"] s'(1)
    by (auto simp add: init_pstate_def)
  with s' show ?thesis by (simp add: parse_ldif_def)
qed

lemma for_attrs_dropped:
  assumes "\<forall>a\<in>set attrs. startswith line (a @ '':'') \<longrightarrow> a = ''memberUid''"
    and "uid_to_dn s (strip (after_colon line)) = None"
  shows "for_attrs line s attrs = Some s"
  using assms
proof (induction attrs)
  case Nil
  then show ?case by simp
next
  case (Cons a attrs)
  have "member_step line s a = Some s"
  proof (cases "startswith line (a @ '':'')")
    case True
    then have "a = ''memberUid''" using Cons.prems(1) by simp
    then show ?thesis using True Cons.prems(2) value_of_startswith [OF True]
      by (simp add: member_step_def)
  next
    case False
    then show ?thesis by (simp add: member_step_def)
  qed
  then show ?case using Cons by simp
qed

lemma emitted_edges_member:
  assumes "attr \<in> set attrs" and "attr \<noteq> ''memberUid''"
    and "CHR '':'' \<in> set (strip raw)" and "before_colon (strip raw) = attr"
    and "strip (after_colon (strip raw)) \<noteq> []"
    and "attr \<noteq> ''dn''" and "attr \<noteq> ''objectClass''"
    and "\<not> (attr = ''uid'' \<and> ty = Some User)"
    and "\<not> (attr = ''cn'' \<and> ty = Some Group)"
  shows "(strip (after_colon (strip raw)), dn, ''memberOf'') \<in> set (emitted_edges attrs (dn, ty, raw))"
proof -
  let ?line = "strip raw"
  have sw: "startswith ?line (attr @ '':'')"
    using startswith_before_colon [OF assms(3)] assms(4) by simp
  have nodn: "\<not> is_dn_line raw"
    using before_colon_startswith [of ?line "''dn''"] assms(4,6) by (auto simp add: is_dn_line_def)
  have nooc: "\<not> startswith ?line ''objectClass:''"
    using before_colon_startswith [of ?line "''objectClass''"] assms(4,7) by auto
  have nouid: "\<not> (startswith ?line ''uid:'' \<and> ty = Some User)"
    using before_colon_startswith [of ?line "''uid''"] assms(4,8) by auto
  have nocn: "\<not> (startswith ?line ''cn:'' \<and> ty = Some Group)"
    using before_colon_startswith [of ?line "''cn''"] assms(4,9) by auto
  have "(strip (after_colon ?line), dn, ''memberOf'') \<in> set (line_edges attrs dn ?line)"
    using assms(1,2,5) sw by (auto simp add: line_edges_def)
  then show ?thesis using nodn nooc nouid nocn by (simp add: emitted_edges_def)
qed

lemma step_memberUid_dropped:
  assumes "CHR '':'' \<in> set (strip raw)" and "before_colon (strip raw) = ''memberUid''"
    and "uid_to_dn s (strip (after_colon (strip raw))) = None"
    and "\<forall>a\<in>set attrs. a \<noteq> ''memberUid'' \<longrightarrow> \<not> startswith (strip raw) (a @ '':'')"
  shows "step attrs s raw = Some s"
proof -
  let ?line = "strip raw"
  have nodn: "\<not> startswith ?line ''dn:''"
    using before_colon_startswith [of ?line "''dn''"] assms(2) by auto
  have nooc: "\<not> startswith ?line ''objectClass:''"
    using before_colon_startswith [of ?line "''objectClass''"] assms(2) by auto
  have nouid: "\<not> startswith ?line ''uid:''"
    using before_colon_startswith [of ?line "''uid''"] assms(2) by auto
  have nocn: "\<not> startswith ?line ''cn:''"
    using before_colon_startswith [of ?line "''cn''"] assms(2) by auto
  have "for_attrs ?line s attrs = Some s"
    using assms(3,4) by (intro for_attrs_dropped) auto
  then show ?thesis using nodn nooc nouid nocn by (simp add: step_def)
qed

section \<open>Properties stated by the specification\<close>

text \<open>
  C1 (defect of the code). The specification states that a Group entry with a line
  \<^verbatim>\<open>memberUid: X\<close> and a User entry whose \<^verbatim>\<open>uid\<close> is \<open>X\<close> yield the edge from the
  user's dn to the group's dn, because the table from local identifiers to DNs is filled
  from the User entries first. The parser creates the table \<^verbatim>\<open>uid_to_dn\<close> and looks
  \<^verbatim>\<open>memberUid\<close> values up in it, but never stores anything in it. On the document below
  (the user \<^verbatim>\<open>alice\<close>, then the group \<^verbatim>\<open>devs\<close> with \<^verbatim>\<open>memberUid: alice\<close>) both
  nodes are found and no edge is returned.
\<close>

theorem C1_memberUid_edge_missing:
  "map_option (\<lambda>(ns, es). (set ns, es))
     (parse_ldif
        ''dn: uid=alice,ou=people,dc=x\<newline>objectClass: posixAccount\<newline>uid: alice\<newline>dn: cn=devs,ou=groups,dc=x\<newline>objectClass: posixGroup\<newline>cn: devs\<newline>memberUid: alice\<newline>''
        [''memberUid''])
   = Some ({(Some ''uid=alice,ou=people,dc=x'', ''alice'', User),
            (Some ''cn=devs,ou=groups,dc=x'', ''devs'', Group)}, [])"
proof -
  have "parse_ldif
        ''dn: uid=alice,ou=people,dc=x\<newline>objectClass: posixAccount\<newline>uid: alice\<newline>dn: cn=devs,ou=groups,dc=x\<newline>objectClass: posixGroup\<newline>cn: devs\<newline>memberUid: alice\<newline>''
        [''memberUid'']
    = Some ([(Some ''cn=devs,ou=groups,dc=x'', ''devs'', Group),
             (Some ''uid=alice,ou=people,dc=x'', ''alice'', User)], [])"
    by code_simp
  then show ?thesis by auto
qed

text \<open>
  C2. In an entry (its \<^verbatim>\<open>dn:\<close> line, then the lines \<open>earlier\<close> with no further
  \<^verbatim>\<open>dn:\<close> line),
  a \<^verbatim>\<open>uid:\<close> line adds the node (entry dn, value of the line, User) exactly when the most
  recent type-assigning \<^verbatim>\<open>objectClass\<close> line above it in the entry assigns User, and
  leaves the nodes as they are otherwise; a \<^verbatim>\<open>cn:\<close> line does the same for Group. In
  particular an entry whose type-assigning \<^verbatim>\<open>objectClass\<close> lines all come after its
  \<^verbatim>\<open>uid:\<close> and \<^verbatim>\<open>cn:\<close> lines (no assigning line in \<open>earlier\<close>, no \<^verbatim>\<open>uid:\<close> or
  \<^verbatim>\<open>cn:\<close> line in \<open>later\<close>) adds no node at all.
\<close>

theorem C2_node_follows_governing_objectClass:
  assumes "for_lines attrs init_pstate before = Some s0"
    and "is_dn_line dnline"
    and "\<forall>l\<in>set earlier. \<not> is_dn_line l"
  shows "\<exists>s. for_lines attrs s0 (dnline # earlier) = Some s
           \<and> current_dn s = Some (strip (after_colon (strip dnline)))
           \<and> (startswith (strip raw) ''uid:'' \<longrightarrow>
                (\<exists>s'. step attrs s raw = Some s' \<and>
                   nodes s' = (if governing earlier = Some User
                               then List.insert (current_dn s, strip (after_colon (strip raw)), User) (nodes s)
                               else nodes s)))
           \<and> (startswith (strip raw) ''cn:'' \<longrightarrow>
                (\<exists>s'. step attrs s raw = Some s' \<and>
                   nodes s' = (if governing earlier = Some Group
                               then List.insert (current_dn s, strip (after_colon (strip raw)), Group) (nodes s)
                               else nodes s)))
           \<and> ((\<forall>l\<in>set earlier. assigned_type (strip l) = None)
                \<and> (\<forall>l\<in>set later. \<not> is_dn_line l \<and> \<not> startswith (strip l) ''uid:''
                                     \<and> \<not> startswith (strip l) ''cn:'') \<longrightarrow>
                (\<exists>s'. for_lines attrs s0 (dnline # earlier @ later) = Some s' \<and> nodes s' = nodes s0))"
proof -
  have inv0: "uid_to_dn s0 = Map.empty" using assms(1) by (rule reachable_invariant)
  let ?s1 = "s0\<lparr>current_dn := Some (strip (after_colon (strip dnline))), current_type := None\<rparr>"
  have st1: "step attrs s0 dnline = Some ?s1" using assms(2) by (rule step_dn)
  have inv1: "uid_to_dn ?s1 = Map.empty" using inv0 by simp
  from for_lines_type [OF inv1 assms(3), of attrs]
  obtain s where s: "for_lines attrs ?s1 earlier = Some s" "uid_to_dn s = Map.empty"
    "current_dn s = Some (strip (after_colon (strip dnline)))"
    "current_type s = governing earlier"
    by (auto split: option.splits)
  have run: "for_lines attrs s0 (dnline # earlier) = Some s" using st1 s(1) by simp
  have uid: "startswith (strip raw) ''uid:'' \<longrightarrow>
                (\<exists>s'. step attrs s raw = Some s' \<and>
                   nodes s' = (if governing earlier = Some User
                               then List.insert (current_dn s, strip (after_colon (strip raw)), User) (nodes s)
                               else nodes s))"
  proof
    assume u: "startswith (strip raw) ''uid:''"
    from uid_line_only [OF u]
    have nocn: "\<not> startswith (strip raw) ''cn:''" "\<not> is_dn_line raw"
      "\<not> startswith (strip raw) ''objectClass:''"
      by (simp_all add: is_dn_line_def)
    show "\<exists>s'. step attrs s raw = Some s' \<and>
                   nodes s' = (if governing earlier = Some User
                               then List.insert (current_dn s, strip (after_colon (strip raw)), User) (nodes s)
                               else nodes s)"
      using u nocn s(4)
      by (cases rule: step_cases [OF s(2), of raw attrs]) auto
  qed
  have cn: "startswith (strip raw) ''cn:'' \<longrightarrow>
                (\<exists>s'. step attrs s raw = Some s' \<and>
                   nodes s' = (if governing earlier = Some Group
                               then List.insert (current_dn s, strip (after_colon (strip raw)), Group) (nodes s)
                               else nodes s))"
  proof
    assume c: "startswith (strip raw) ''cn:''"
    from cn_line_only [OF c]
    have nouid: "\<not> startswith (strip raw) ''uid:''" "\<not> is_dn_line raw"
      "\<not> startswith (strip raw) ''objectClass:''"
      by (simp_all add: is_dn_line_def)
    show "\<exists>s'. step attrs s raw = Some s' \<and>
                   nodes s' = (if governing earlier = Some Group
                               then List.insert (current_dn s, strip (after_colon (strip raw)), Group) (nodes s)
                               else nodes s)"
      using c nouid s(4)
      by (cases rule: step_cases [OF s(2), of raw attrs]) auto
  qed
  have late: "(\<forall>l\<in>set earlier. assigned_type (strip l) = None)
                \<and> (\<forall>l\<in>set later. \<not> is_dn_line l \<and> \<not> startswith (strip l) ''uid:''
                                     \<and> \<not> startswith (strip l) ''cn:'') \<longrightarrow>
                (\<exists>s'. for_lines attrs s0 (dnline # earlier @ later) = Some s' \<and> nodes s' = nodes s0)"
  proof
    assume a: "(\<forall>l\<in>set earlier. assigned_type (strip l) = None)
                \<and> (\<forall>l\<in>set later. \<not> is_dn_line l \<and> \<not> startswith (strip l) ''uid:''
                                     \<and> \<not> startswith (strip l) ''cn:'')"
    have "\<forall>l\<in>set earlier. \<not> is_dn_line l \<and> assigned_type (strip l) = None"
      using a assms(3) by blast
    from for_lines_untyped [OF inv1 _ this, of attrs] s(1)
    have n1: "nodes s = nodes s0" by auto
    from for_lines_unlabelled [OF s(2), of later attrs] a
    obtain s' where "for_lines attrs s later = Some s'" "nodes s' = nodes s" by blast
    moreover have "for_lines attrs s0 (dnline # earlier @ later) = for_lines attrs s later"
      using for_lines_append [of attrs s0 "dnline # earlier" later] run by simp
    ultimately show "\<exists>s'. for_lines attrs s0 (dnline # earlier @ later) = Some s' \<and> nodes s' = nodes s0"
      using n1 by simp
  qed
  from run s(3) uid cn late show ?thesis by blast
qed

theorem C2_node_follows_governing_objectClass_witness:
  "is_dn_line ''dn: uid=alice,ou=people,dc=x''
   \<and> governing [''objectClass: inetOrgPerson''] = Some User
   \<and> (\<exists>s. for_lines [''member''] init_pstate
              [''dn: uid=alice,ou=people,dc=x'', ''objectClass: inetOrgPerson''] = Some s
          \<and> current_dn s = Some ''uid=alice,ou=people,dc=x''
          \<and> (\<exists>s'. step [''member''] s ''uid: alice'' = Some s'
                 \<and> nodes s' = List.insert (Some ''uid=alice,ou=people,dc=x'', ''alice'', User) (nodes s))
          \<and> (\<exists>s'. step [''member''] s ''cn: alice'' = Some s' \<and> nodes s' = nodes s))
   \<and> (\<exists>s'. for_lines [''member''] init_pstate
              [''dn: uid=alice,ou=people,dc=x'', ''uid: alice'', ''objectClass: inetOrgPerson'']
            = Some s' \<and> nodes s' = [])"
proof -
  have r: "for_lines [''member''] init_pstate [] = Some init_pstate" by simp
  have dn: "is_dn_line ''dn: uid=alice,ou=people,dc=x''" by code_simp
  have nd: "\<forall>l\<in>set [''objectClass: inetOrgPerson'']. \<not> is_dn_line l" by code_simp
  have gv: "governing [''objectClass: inetOrgPerson''] = Some User" by code_simp
  have v1: "strip (after_colon (strip ''dn: uid=alice,ou=people,dc=x'')) = ''uid=alice,ou=people,dc=x''"
    by code_simp
  have u: "startswith (strip ''uid: alice'') ''uid:''" by code_simp
  have v2: "strip (after_colon (strip ''uid: alice'')) = ''alice''" by code_simp
  have c: "startswith (strip ''cn: alice'') ''cn:''" by code_simp
  from C2_node_follows_governing_objectClass [OF r dn nd, of "''uid: alice''" "[]"]
  obtain s where s: "for_lines [''member''] init_pstate
              [''dn: uid=alice,ou=people,dc=x'', ''objectClass: inetOrgPerson''] = Some s"
      "current_dn s = Some ''uid=alice,ou=people,dc=x''"
      "\<exists>s'. step [''member''] s ''uid: alice'' = Some s'
                 \<and> nodes s' = List.insert (Some ''uid=alice,ou=people,dc=x'', ''alice'', User) (nodes s)"
    using gv v1 u v2 by auto
  from C2_node_follows_governing_objectClass [OF r dn nd, of "''cn: alice''" "[]"] s(1)
  have "\<exists>s'. step [''member''] s ''cn: alice'' = Some s' \<and> nodes s' = nodes s"
    using gv c by auto
  then have first: "\<exists>s. for_lines [''member''] init_pstate
              [''dn: uid=alice,ou=people,dc=x'', ''objectClass: inetOrgPerson''] = Some s
          \<and> current_dn s = Some ''uid=alice,ou=people,dc=x''
          \<and> (\<exists>s'. step [''member''] s ''uid: alice'' = Some s'
                 \<and> nodes s' = List.insert (Some ''uid=alice,ou=people,dc=x'', ''alice'', User) (nodes s))
          \<and> (\<exists>s'. step [''member''] s ''cn: alice'' = Some s' \<and> nodes s' = nodes s)"
    using s by blast
  have nd2: "\<forall>l\<in>set [''uid: alice'']. \<not> is_dn_line l" by code_simp
  have na: "\<forall>l\<in>set [''uid: alice'']. assigned_type (strip l) = None" by code_simp
  have nl: "\<forall>l\<in>set [''objectClass: inetOrgPerson'']. \<not> is_dn_line l
              \<and> \<not> startswith (strip l) ''uid:'' \<and> \<not> startswith (strip l) ''cn:''"
    by code_simp
  from C2_node_follows_governing_objectClass [OF r dn nd2, of "''uid: alice''"
      "[''objectClass: inetOrgPerson'']"] na nl
  have second: "\<exists>s'. for_lines [''member''] init_pstate
              [''dn: uid=alice,ou=people,dc=x'', ''uid: alice'', ''objectClass: inetOrgPerson'']
            = Some s' \<and> nodes s' = []"
    by (auto simp add: init_pstate_def)
  from dn gv first second show ?thesis by blast
qed

text \<open>
  C3 (amended). The statement of the specification holds for the lines that reach the
  membership loop with a value that is not empty. Let a line have an attribute name (the text before its first
  colon) equal to a configured attribute other than \<^verbatim>\<open>memberUid\<close>, and let the trimmed
  text after the first colon be non-empty. If the line is not taken by an earlier branch
  (the name is neither \<^verbatim>\<open>dn\<close> nor \<^verbatim>\<open>objectClass\<close>, nor \<^verbatim>\<open>uid\<close> while the running type
  is User, nor \<^verbatim>\<open>cn\<close> while it is Group), then the edge (value, current dn,
  \<^verbatim>\<open>memberOf\<close>) is appended to the edges, and every edge the line appends carries the
  relation \<^verbatim>\<open>memberOf\<close>.
\<close>

theorem C3_dn_valued_reference_emits_edge:
  assumes "for_lines attrs init_pstate before = Some s"
    and "attr \<in> set attrs" and "attr \<noteq> ''memberUid''"
    and "CHR '':'' \<in> set (strip raw)" and "before_colon (strip raw) = attr"
    and "strip (after_colon (strip raw)) \<noteq> []"
    and "attr \<noteq> ''dn''" and "attr \<noteq> ''objectClass''"
    and "\<not> (attr = ''uid'' \<and> current_type s = Some User)"
    and "\<not> (attr = ''cn'' \<and> current_type s = Some Group)"
  shows "\<exists>s' new. step attrs s raw = Some s' \<and> edges s' = edges s @ new
           \<and> (strip (after_colon (strip raw)), current_dn s, ''memberOf'') \<in> set new
           \<and> (\<forall>e\<in>set new. snd (snd e) = ''memberOf'')"
proof -
  let ?line = "strip raw"
  have inv: "uid_to_dn s = Map.empty" using assms(1) by (rule reachable_invariant)
  have sw: "startswith ?line (attr @ '':'')"
    using startswith_before_colon [OF assms(4)] assms(5) by simp
  have nodn: "\<not> is_dn_line raw"
    using before_colon_startswith [of ?line "''dn''"] assms(5,7) by (auto simp add: is_dn_line_def)
  have nooc: "\<not> startswith ?line ''objectClass:''"
    using before_colon_startswith [of ?line "''objectClass''"] assms(5,8) by auto
  have nouid: "\<not> (startswith ?line ''uid:'' \<and> current_type s = Some User)"
    using before_colon_startswith [of ?line "''uid''"] assms(5,9) by auto
  have nocn: "\<not> (startswith ?line ''cn:'' \<and> current_type s = Some Group)"
    using before_colon_startswith [of ?line "''cn''"] assms(5,10) by auto
  have st: "step attrs s raw = Some (s\<lparr>edges := edges s @ line_edges attrs (current_dn s) ?line\<rparr>)"
    using nodn nooc nouid nocn inv by (rule step_other)
  have mem: "(strip (after_colon ?line), current_dn s, ''memberOf'')
               \<in> set (line_edges attrs (current_dn s) ?line)"
    using assms(2,3,6) sw by (auto simp add: line_edges_def)
  have rel: "\<forall>e\<in>set (line_edges attrs (current_dn s) ?line). snd (snd e) = ''memberOf''"
    by (auto simp add: line_edges_def)
  from st mem rel show ?thesis by simp
qed

theorem C3_dn_valued_reference_emits_edge_witness:
  "for_lines [''uniqueMember'', ''memberUid''] init_pstate [] = Some init_pstate
   \<and> before_colon (strip ''uniqueMember: uid=alice,ou=people,dc=x'') = ''uniqueMember''
   \<and> (\<exists>s' new. step [''uniqueMember'', ''memberUid''] init_pstate
                   ''uniqueMember: uid=alice,ou=people,dc=x'' = Some s'
         \<and> edges s' = edges init_pstate @ new
         \<and> (''uid=alice,ou=people,dc=x'', None, ''memberOf'') \<in> set new)"
proof -
  have r: "for_lines [''uniqueMember'', ''memberUid''] init_pstate [] = Some init_pstate" by simp
  have a: "''uniqueMember'' \<in> set [''uniqueMember'', ''memberUid'']" by simp
  have b: "''uniqueMember'' \<noteq> ''memberUid''" by simp
  have c: "CHR '':'' \<in> set (strip ''uniqueMember: uid=alice,ou=people,dc=x'')" by code_simp
  have d: "before_colon (strip ''uniqueMember: uid=alice,ou=people,dc=x'') = ''uniqueMember''"
    by code_simp
  have v: "strip (after_colon (strip ''uniqueMember: uid=alice,ou=people,dc=x''))
             = ''uid=alice,ou=people,dc=x''"
    by code_simp
  have e: "strip (after_colon (strip ''uniqueMember: uid=alice,ou=people,dc=x'')) \<noteq> []"
    by (simp add: v)
  have f: "''uniqueMember'' \<noteq> ''dn''" "''uniqueMember'' \<noteq> ''objectClass''"
    "\<not> (''uniqueMember'' = ''uid'' \<and> current_type init_pstate = Some User)"
    "\<not> (''uniqueMember'' = ''cn'' \<and> current_type init_pstate = Some Group)"
    by simp_all
  from C3_dn_valued_reference_emits_edge [OF r a b c d e f]
  have "\<exists>s' new. step [''uniqueMember'', ''memberUid''] init_pstate
                   ''uniqueMember: uid=alice,ou=people,dc=x'' = Some s'
         \<and> edges s' = edges init_pstate @ new
         \<and> (''uid=alice,ou=people,dc=x'', None, ''memberOf'') \<in> set new"
    unfolding v by (auto simp add: init_pstate_def)
  with r d show ?thesis by blast
qed

text \<open>
  C3 as stated fails on two kinds of lines. A membership line with an empty value is
  dropped by the test \<^verbatim>\<open>if member_dn:\<close>: the document with the entry \<^verbatim>\<open>cn=g,dc=x\<close> and
  the line \<^verbatim>\<open>member:\<close> yields no edge, where the specification
  asks for the edge from the empty DN. And a caller-supplied name that an earlier branch takes never reaches the
  membership loop: with the attribute \<^verbatim>\<open>cn\<close> configured, the line
  \<^verbatim>\<open>cn: uid=alice,dc=x\<close> of a Group entry becomes the label of a node and yields no edge.
\<close>

theorem C3_counterexample:
  "before_colon (strip ''member:'') = ''member''
   \<and> parse_ldif ''dn: cn=g,dc=x\<newline>member:\<newline>'' [''member''] = Some ([], [])
   \<and> before_colon (strip ''cn: uid=alice,dc=x'') = ''cn''
   \<and> parse_ldif ''dn: cn=g,dc=x\<newline>objectClass: posixGroup\<newline>cn: uid=alice,dc=x\<newline>'' [''cn'']
       = Some ([(Some ''cn=g,dc=x'', ''uid=alice,dc=x'', Group)], [])"
  by code_simp

text \<open>
  C4. The attributes \<^verbatim>\<open>detect_membership_attributes\<close> returns are exactly the names among
  \<^verbatim>\<open>member\<close>, \<^verbatim>\<open>memberUid\<close>, \<^verbatim>\<open>uniqueMember\<close>, \<^verbatim>\<open>isMemberOf\<close>, \<^verbatim>\<open>memberOf\<close> that are
  equal to the text before the first colon of some trimmed line of the loaded text, each
  once. The test is equality with the whole attribute name, so a line \<^verbatim>\<open>memberOf: ...\<close>
  contributes \<^verbatim>\<open>memberOf\<close> and not \<^verbatim>\<open>member\<close>, and a text (or no text) without such a
  line gives the empty result.
\<close>

theorem C4_detect_exact_attribute_names:
  "set (detect_membership_attributes self) =
     {a. a \<in> set [''member'', ''memberUid'', ''uniqueMember'', ''isMemberOf'', ''memberOf'']
         \<and> (\<exists>t. ldif_content self = Some t
              \<and> (\<exists>raw\<in>set (splitlines t).
                    CHR '':'' \<in> set (strip raw) \<and> before_colon (strip raw) = a))}
   \<and> distinct (detect_membership_attributes self)"
proof (cases "ldif_content self")
  case None
  then show ?thesis by (simp add: detect_membership_attributes_def)
next
  case (Some t)
  show ?thesis
  proof (cases "t = []")
    case True
    then show ?thesis using Some by (simp add: detect_membership_attributes_def splitlines_Nil)
  next
    case False
    then have d: "detect_membership_attributes self = foldl detect_step [] (splitlines t)"
      using Some by (simp add: detect_membership_attributes_def)
    show ?thesis
      unfolding d using Some foldl_detect_step_set [of "[]" "splitlines t"]
        foldl_detect_step_distinct [of "[]" "splitlines t"]
      by (simp add: common_attributes_def)
  qed
qed

theorem C4_detect_exact_attribute_names_witness:
  "set (detect_membership_attributes
          (init_console\<lparr>ldif_content :=
             Some ''dn: cn=g,dc=x\<newline>memberOf: cn=h,dc=x\<newline>membership: none\<newline>uniqueMember : y\<newline>''\<rparr>))
   = {''memberOf''}"
proof -
  let ?t = "''dn: cn=g,dc=x\<newline>memberOf: cn=h,dc=x\<newline>membership: none\<newline>uniqueMember : y\<newline>''"
  have ls: "splitlines ?t = [''dn: cn=g,dc=x'', ''memberOf: cn=h,dc=x'', ''membership: none'', ''uniqueMember : y'']"
    by code_simp
  have b: "before_colon (strip ''dn: cn=g,dc=x'') = ''dn''"
      "before_colon (strip ''memberOf: cn=h,dc=x'') = ''memberOf''"
      "before_colon (strip ''membership: none'') = ''membership''"
      "before_colon (strip ''uniqueMember : y'') = ''uniqueMember ''"
    by code_simp+
  have c: "CHR '':'' \<in> set (strip ''memberOf: cn=h,dc=x'')" by code_simp
  let ?c = "init_console\<lparr>ldif_content := Some ?t\<rparr>"
  have lc: "ldif_content ?c = Some ?t" by (simp add: init_console_def)
  have e: "set (detect_membership_attributes ?c) =
     {a. a \<in> set [''member'', ''memberUid'', ''uniqueMember'', ''isMemberOf'', ''memberOf'']
         \<and> (\<exists>t. ldif_content ?c = Some t
              \<and> (\<exists>raw\<in>set (splitlines t).
                    CHR '':'' \<in> set (strip raw) \<and> before_colon (strip raw) = a))}"
    using C4_detect_exact_attribute_names [of ?c] by (rule conjunct1)
  have "a \<in> set (detect_membership_attributes ?c) \<longleftrightarrow> a = ''memberOf''" for a
    unfolding e mem_Collect_eq lc option.inject ex_simps simp_thms ls
    using b c by auto
  then show ?thesis by blast
qed

text \<open>
  C5. Within one entry the running type follows the last \<^verbatim>\<open>objectClass\<close> line that
  assigns a type. One \<^verbatim>\<open>objectClass\<close> line sets the type to User when it names a user
  class, to Group when it names a group class (and no user class, the test for the user
  classes being the first), and leaves it as it is otherwise. After any lines of one
  entry the type is the one assigned by the most recent assigning line, or the type before
  them when none assigns. No class has priority over another: a User line followed by a
  Group line gives Group, and a Group line followed by a User line gives User.
\<close>

theorem C5_last_objectClass_line_wins:
  assumes "for_lines attrs init_pstate before = Some s"
  shows "(startswith (strip raw) ''objectClass:'' \<longrightarrow>
            (\<exists>s'. step attrs s raw = Some s' \<and>
               current_type s' =
                 (if contains ''inetOrgPerson'' (strip raw) \<or> contains ''posixAccount'' (strip raw)
                  then Some User
                  else if contains ''groupOfNames'' (strip raw) \<or> contains ''posixGroup'' (strip raw)
                          \<or> contains ''groupOfMembers'' (strip raw)
                  then Some Group
                  else current_type s)))
       \<and> ((\<forall>l\<in>set ls. \<not> is_dn_line l) \<longrightarrow>
            (\<exists>s'. for_lines attrs s ls = Some s' \<and>
               current_type s' = (case governing ls of None \<Rightarrow> current_type s | Some t \<Rightarrow> Some t)))
       \<and> (assigned_type (strip u) = Some User \<and> assigned_type (strip g) = Some Group \<longrightarrow>
            map_option current_type (for_lines attrs s [u, g]) = Some (Some Group)
            \<and> map_option current_type (for_lines attrs s [g, u]) = Some (Some User))"
proof -
  have inv: "uid_to_dn s = Map.empty" using assms by (rule reachable_invariant)
  have one: "startswith (strip raw) ''objectClass:'' \<longrightarrow>
            (\<exists>s'. step attrs s raw = Some s' \<and>
               current_type s' =
                 (if contains ''inetOrgPerson'' (strip raw) \<or> contains ''posixAccount'' (strip raw)
                  then Some User
                  else if contains ''groupOfNames'' (strip raw) \<or> contains ''posixGroup'' (strip raw)
                          \<or> contains ''groupOfMembers'' (strip raw)
                  then Some Group
                  else current_type s))"
    by (simp add: step_objectClass assigned_type_def)
  have many: "(\<forall>l\<in>set ls. \<not> is_dn_line l) \<longrightarrow>
            (\<exists>s'. for_lines attrs s ls = Some s' \<and>
               current_type s' = (case governing ls of None \<Rightarrow> current_type s | Some t \<Rightarrow> Some t))"
    using for_lines_type [OF inv, of ls attrs] by blast
  have two: "assigned_type (strip u) = Some User \<and> assigned_type (strip g) = Some Group \<longrightarrow>
            map_option current_type (for_lines attrs s [u, g]) = Some (Some Group)
            \<and> map_option current_type (for_lines attrs s [g, u]) = Some (Some User)"
  proof
    assume a: "assigned_type (strip u) = Some User \<and> assigned_type (strip g) = Some Group"
    then have u: "startswith (strip u) ''objectClass:''" and g: "startswith (strip g) ''objectClass:''"
      by (auto simp add: assigned_type_def split: if_splits)
    show "map_option current_type (for_lines attrs s [u, g]) = Some (Some Group)
            \<and> map_option current_type (for_lines attrs s [g, u]) = Some (Some User)"
      using a by (simp add: step_objectClass [OF u] step_objectClass [OF g])
  qed
  from one many two show ?thesis by blast
qed

theorem C5_last_objectClass_line_wins_witness:
  "for_lines [''member''] init_pstate [] = Some init_pstate
   \<and> map_option current_type
       (for_lines [''member''] init_pstate
          [''objectClass: posixAccount'', ''objectClass: top'', ''objectClass: posixGroup'',
           ''objectClass: organizationalUnit'']) = Some (Some Group)
   \<and> map_option current_type
       (for_lines [''member''] init_pstate
          [''objectClass: posixGroup'', ''objectClass: posixAccount'']) = Some (Some User)"
proof -
  have r: "for_lines [''member''] init_pstate [] = Some init_pstate"
    by simp
  have nd: "\<forall>l\<in>set [''objectClass: posixAccount'', ''objectClass: top'', ''objectClass: posixGroup'',
           ''objectClass: organizationalUnit'']. \<not> is_dn_line l"
    by code_simp
  have gv: "governing [''objectClass: posixAccount'', ''objectClass: top'', ''objectClass: posixGroup'',
           ''objectClass: organizationalUnit''] = Some Group"
    by code_simp
  have ug: "assigned_type (strip ''objectClass: posixAccount'') = Some User
            \<and> assigned_type (strip ''objectClass: posixGroup'') = Some Group"
    by code_simp
  from C5_last_objectClass_line_wins [OF r, of "''objectClass: top''"
      "[''objectClass: posixAccount'', ''objectClass: top'', ''objectClass: posixGroup'',
           ''objectClass: organizationalUnit'']" "''objectClass: posixAccount''"
      "''objectClass: posixGroup''"] nd gv ug r
  show ?thesis by auto
qed

text \<open>
  C6 (amended). A reference that cannot be resolved is never an error: \<^verbatim>\<open>parse_ldif\<close>
  returns a result on every text and every list of attributes. A \<^verbatim>\<open>memberUid\<close> line
  whose value the table \<^verbatim>\<open>uid_to_dn\<close> does not hold, and which no other configured
  attribute matches, is dropped: the parser's state, and so the edge list, stays as it
  is. A reference by DN is not compared with the nodes: for every line of the document
  whose attribute name is a configured attribute other than \<^verbatim>\<open>memberUid\<close>, whose
  trimmed value is not empty and which no earlier branch takes (the name is neither
  \<^verbatim>\<open>dn\<close> nor \<^verbatim>\<open>objectClass\<close>, nor \<^verbatim>\<open>uid\<close> under the type User, nor \<^verbatim>\<open>cn\<close> under the
  type Group), the edge (value, dn of the line's entry, \<^verbatim>\<open>memberOf\<close>) is in the returned
  edge list, whatever the returned nodes are.
\<close>

theorem C6_unresolved_memberUid_dropped:
  "(\<exists>ns es. parse_ldif content attrs = Some (ns, es)
      \<and> (\<forall>dn ty raw attr.
            (dn, ty, raw) \<in> set (contexts None None (splitlines content))
            \<and> attr \<in> set attrs \<and> attr \<noteq> ''memberUid'' \<and> CHR '':'' \<in> set (strip raw)
            \<and> before_colon (strip raw) = attr \<and> strip (after_colon (strip raw)) \<noteq> []
            \<and> attr \<noteq> ''dn'' \<and> attr \<noteq> ''objectClass''
            \<and> \<not> (attr = ''uid'' \<and> ty = Some User)
            \<and> \<not> (attr = ''cn'' \<and> ty = Some Group) \<longrightarrow>
            (strip (after_colon (strip raw)), dn, ''memberOf'') \<in> set es))
   \<and> (CHR '':'' \<in> set (strip uraw) \<and> before_colon (strip uraw) = ''memberUid''
        \<and> uid_to_dn s (strip (after_colon (strip uraw))) = None
        \<and> (\<forall>a\<in>set attrs. a \<noteq> ''memberUid'' \<longrightarrow> \<not> startswith (strip uraw) (a @ '':'')) \<longrightarrow>
        step attrs s uraw = Some s)"
proof -
  from parse_ldif_emitted [of content attrs]
  obtain ns es where r: "parse_ldif content attrs = Some (ns, es)"
    "es = concat (map (emitted_edges attrs) (contexts None None (splitlines content)))"
    by blast
  have kept: "(strip (after_colon (strip raw)), dn, ''memberOf'') \<in> set es"
    if "(dn, ty, raw) \<in> set (contexts None None (splitlines content))"
      and "attr \<in> set attrs" "attr \<noteq> ''memberUid''" "CHR '':'' \<in> set (strip raw)"
      "before_colon (strip raw) = attr" "strip (after_colon (strip raw)) \<noteq> []"
      "attr \<noteq> ''dn''" "attr \<noteq> ''objectClass''"
      "\<not> (attr = ''uid'' \<and> ty = Some User)" "\<not> (attr = ''cn'' \<and> ty = Some Group)"
    for dn ty raw attr
  proof -
    have "(strip (after_colon (strip raw)), dn, ''memberOf'') \<in> set (emitted_edges attrs (dn, ty, raw))"
      using that(2-) by (rule emitted_edges_member)
    then show ?thesis unfolding r(2) using that(1) by auto
  qed
  have dropped: "CHR '':'' \<in> set (strip uraw) \<and> before_colon (strip uraw) = ''memberUid''
        \<and> uid_to_dn s (strip (after_colon (strip uraw))) = None
        \<and> (\<forall>a\<in>set attrs. a \<noteq> ''memberUid'' \<longrightarrow> \<not> startswith (strip uraw) (a @ '':'')) \<longrightarrow>
        step attrs s uraw = Some s"
    using step_memberUid_dropped [of uraw s attrs] by blast
  from r(1) kept dropped show ?thesis by blast
qed

theorem C6_unresolved_memberUid_dropped_witness:
  "(\<exists>ns es. parse_ldif ''dn: cn=g,dc=x\<newline>member: uid=ghost,dc=x\<newline>memberUid: bob\<newline>''
               [''member'', ''memberUid''] = Some (ns, es)
      \<and> (''uid=ghost,dc=x'', Some ''cn=g,dc=x'', ''memberOf'') \<in> set es)
   \<and> before_colon (strip ''memberUid: bob'') = ''memberUid''
   \<and> uid_to_dn init_pstate (strip (after_colon (strip ''memberUid: bob''))) = None
   \<and> step [''member'', ''memberUid''] init_pstate ''memberUid: bob'' = Some init_pstate"
proof -
  let ?doc = "''dn: cn=g,dc=x\<newline>member: uid=ghost,dc=x\<newline>memberUid: bob\<newline>''"
  let ?attrs = "[''member'', ''memberUid'']"
  have ctx: "(Some ''cn=g,dc=x'', None, ''member: uid=ghost,dc=x'')
               \<in> set (contexts None None (splitlines ?doc))"
    by code_simp
  have m: "''member'' \<in> set ?attrs" "''member'' \<noteq> ''memberUid''"
    "''member'' \<noteq> ''dn''" "''member'' \<noteq> ''objectClass''" "''member'' \<noteq> ''uid''" "''member'' \<noteq> ''cn''"
    by simp_all
  have c: "CHR '':'' \<in> set (strip ''member: uid=ghost,dc=x'')" by code_simp
  have b: "before_colon (strip ''member: uid=ghost,dc=x'') = ''member''" by code_simp
  have v: "strip (after_colon (strip ''member: uid=ghost,dc=x'')) = ''uid=ghost,dc=x''" by code_simp
  have uc: "CHR '':'' \<in> set (strip ''memberUid: bob'')" by code_simp
  have ub: "before_colon (strip ''memberUid: bob'') = ''memberUid''" by code_simp
  have uv: "uid_to_dn init_pstate (strip (after_colon (strip ''memberUid: bob''))) = None"
    by (simp add: init_pstate_def)
  have uo: "\<forall>a\<in>set ?attrs. a \<noteq> ''memberUid'' \<longrightarrow> \<not> startswith (strip ''memberUid: bob'') (a @ '':'')"
    by code_simp
  note t = C6_unresolved_memberUid_dropped [of ?doc ?attrs "''memberUid: bob''" init_pstate]
  from t obtain ns es where r: "parse_ldif ?doc ?attrs = Some (ns, es)"
    and k: "\<forall>dn ty raw attr.
            (dn, ty, raw) \<in> set (contexts None None (splitlines ?doc))
            \<and> attr \<in> set ?attrs \<and> attr \<noteq> ''memberUid'' \<and> CHR '':'' \<in> set (strip raw)
            \<and> before_colon (strip raw) = attr \<and> strip (after_colon (strip raw)) \<noteq> []
            \<and> attr \<noteq> ''dn'' \<and> attr \<noteq> ''objectClass''
            \<and> \<not> (attr = ''uid'' \<and> ty = Some User)
            \<and> \<not> (attr = ''cn'' \<and> ty = Some Group) \<longrightarrow>
            (strip (after_colon (strip raw)), dn, ''memberOf'') \<in> set es"
    by blast
  from k [rule_format, of "Some ''cn=g,dc=x''" None "''member: uid=ghost,dc=x''" "''member''"]
    ctx m c b v
  have "(''uid=ghost,dc=x'', Some ''cn=g,dc=x'', ''memberOf'') \<in> set es" by simp
  with r have first: "\<exists>ns es. parse_ldif ?doc ?attrs = Some (ns, es)
      \<and> (''uid=ghost,dc=x'', Some ''cn=g,dc=x'', ''memberOf'') \<in> set es"
    by blast
  from t uc ub uv uo
  have second: "step ?attrs init_pstate ''memberUid: bob'' = Some init_pstate" by blast
  from first ub uv second show ?thesis by blast
qed

text \<open>
  C6 as stated fails in its last part: nothing in the parser drops a reference whose
  target is never classified as a node. In the document below the entry \<^verbatim>\<open>cn=g,dc=x\<close>
  names the member \<^verbatim>\<open>uid=ghost,dc=x\<close>; neither of the two is classified, there is no
  node at all, and the edge from \<^verbatim>\<open>uid=ghost,dc=x\<close> to \<^verbatim>\<open>cn=g,dc=x\<close> is in the
  result.
\<close>

theorem C6_counterexample:
  "parse_ldif ''dn: cn=g,dc=x\<newline>member: uid=ghost,dc=x\<newline>'' [''member'', ''memberUid'']
   = Some ([], [(''uid=ghost,dc=x'', Some ''cn=g,dc=x'', ''memberOf'')])"
  by code_simp

text \<open>
  C7 (defect of the code). The specification states that \<^verbatim>\<open>export\<close> refuses only when it is
  invoked before \<^verbatim>\<open>parse\<close> has produced data, and after any successful \<^verbatim>\<open>parse\<close> it
  writes both tables. The guard of \<^verbatim>\<open>export\<close> tests whether the node list or the edge
  list is empty, and answers \<^verbatim>\<open>Run 'parse' first\<close>. On a document with one user and no
  membership line, \<^verbatim>\<open>parse\<close> succeeds and reports one node and no edge
  (\<^verbatim>\<open>Ready for export\<close>), and \<^verbatim>\<open>export\<close> then refuses and writes nothing.
\<close>

theorem C7_export_refuses_after_parse:
  "parse (init_console\<lparr>ldif_content :=
            Some ''dn: uid=alice,dc=x\<newline>objectClass: inetOrgPerson\<newline>uid: alice\<newline>''\<rparr>)
   = Some (init_console\<lparr>ldif_content :=
                  Some ''dn: uid=alice,dc=x\<newline>objectClass: inetOrgPerson\<newline>uid: alice\<newline>'',
                self_nodes := [(Some ''uid=alice,dc=x'', ''alice'', User)], self_edges := []\<rparr>,
           [Parsed 1 0])
   \<and> export (init_console\<lparr>ldif_content :=
                  Some ''dn: uid=alice,dc=x\<newline>objectClass: inetOrgPerson\<newline>uid: alice\<newline>'',
                self_nodes := [(Some ''uid=alice,dc=x'', ''alice'', User)], self_edges := []\<rparr>)
         ''nodes.csv'' ''edges.csv''
     = [No_parsed_data]"
proof -
  have "parse_ldif ''dn: uid=alice,dc=x\<newline>objectClass: inetOrgPerson\<newline>uid: alice\<newline>''
          [''member'', ''memberUid'']
        = Some ([(Some ''uid=alice,dc=x'', ''alice'', User)], [])"
    by code_simp
  then show ?thesis by (simp add: parse_def export_def init_console_def)
qed

text \<open>
  C8. Invoking \<^verbatim>\<open>parse\<close> while no document is loaded (the content is \<^verbatim>\<open>None\<close> or
  empty) returns normally: the only effect is the message that no file is loaded, and
  the object, with the nodes and edges computed before, is unchanged.
\<close>

theorem C8_parse_without_document:
  assumes "no_content (ldif_content self)"
  shows "parse self = Some (self, [No_file_loaded])"
  using assms by (auto simp add: parse_def no_content_def split: option.splits)

theorem C8_parse_without_document_witness:
  "no_content (ldif_content
       \<lparr>ldif_content = None, membership_attributes = [''member''],
        self_nodes = [(Some ''uid=a,dc=x'', ''a'', User)],
        self_edges = [(''uid=a,dc=x'', Some ''cn=g,dc=x'', ''memberOf'')]\<rparr>)
   \<and> parse \<lparr>ldif_content = None, membership_attributes = [''member''],
             self_nodes = [(Some ''uid=a,dc=x'', ''a'', User)],
             self_edges = [(''uid=a,dc=x'', Some ''cn=g,dc=x'', ''memberOf'')]\<rparr>
       = Some (\<lparr>ldif_content = None, membership_attributes = [''member''],
                self_nodes = [(Some ''uid=a,dc=x'', ''a'', User)],
                self_edges = [(''uid=a,dc=x'', Some ''cn=g,dc=x'', ''memberOf'')]\<rparr>,
               [No_file_loaded])"
proof -
  have h: "no_content (ldif_content
       \<lparr>ldif_content = None, membership_attributes = [''member''],
        self_nodes = [(Some ''uid=a,dc=x'', ''a'', User)],
        self_edges = [(''uid=a,dc=x'', Some ''cn=g,dc=x'', ''memberOf'')]\<rparr>)"
    by (simp add: no_content_def)
  from h C8_parse_without_document [OF h] show ?thesis by simp
qed

text \<open>
  C9. The returned edges are a sequence in document order, and nothing removes a
  repeated edge: the edge list \<^verbatim>\<open>parse_ldif\<close> returns is the concatenation, line after
  line, of the edges each line emits in its context, and the edges of a document that
  continues another one start with the edges of that one. In the loop, whatever lines
  follow, the edges found so far stay, in their order, at the front of the edge list, and
  a line processed twice appends its edges twice. The returned nodes are a collection
  without repetition of whole triples (dn, label, type): its elements are exactly the
  triples some line emits, no triple occurs twice, no node is lost when further lines are
  read, and two \<^verbatim>\<open>uid:\<close> lines of one User entry leave both triples in the collection
  although they share the dn.
\<close>

theorem C9_edges_sequence_nodes_set_of_triples:
  assumes "for_lines attrs init_pstate before = Some s"
  shows "(\<exists>ns es. parse_ldif content attrs = Some (ns, es)
            \<and> es = concat (map (emitted_edges attrs) (contexts None None (splitlines content)))
            \<and> set ns = set (concat (map emitted_nodes (contexts None None (splitlines content))))
            \<and> distinct ns)
       \<and> (splitlines content = splitlines content1 @ further \<longrightarrow>
            (\<exists>ns1 es1 ns es new. parse_ldif content1 attrs = Some (ns1, es1)
               \<and> parse_ldif content attrs = Some (ns, es)
               \<and> es = es1 @ new \<and> set ns1 \<subseteq> set ns))
       \<and> (\<exists>s1 new. for_lines attrs s ls = Some s1 \<and> edges s1 = edges s @ new
            \<and> set (nodes s) \<subseteq> set (nodes s1))
       \<and> (\<exists>s1 s2 new. step attrs s raw = Some s1 \<and> step attrs s1 raw = Some s2
            \<and> edges s1 = edges s @ new \<and> edges s2 = edges s @ new @ new)
       \<and> distinct (nodes s)
       \<and> (current_type s = Some User \<and> startswith (strip u1) ''uid:''
            \<and> startswith (strip u2) ''uid:'' \<longrightarrow>
            (\<exists>s2. for_lines attrs s [u1, u2] = Some s2
               \<and> set (nodes s2) =
                   {(current_dn s, strip (after_colon (strip u1)), User),
                    (current_dn s, strip (after_colon (strip u2)), User)} \<union> set (nodes s)))"
proof -
  have inv: "uid_to_dn s = Map.empty" using assms by (rule reachable_invariant)
  have whole: "\<exists>ns es. parse_ldif content attrs = Some (ns, es)
            \<and> es = concat (map (emitted_edges attrs) (contexts None None (splitlines content)))
            \<and> set ns = set (concat (map emitted_nodes (contexts None None (splitlines content))))
            \<and> distinct ns"
    by (rule parse_ldif_emitted)
  have prefix: "splitlines content = splitlines content1 @ further \<longrightarrow>
            (\<exists>ns1 es1 ns es new. parse_ldif content1 attrs = Some (ns1, es1)
               \<and> parse_ldif content attrs = Some (ns, es)
               \<and> es = es1 @ new \<and> set ns1 \<subseteq> set ns)"
  proof
    assume sp: "splitlines content = splitlines content1 @ further"
    from for_lines_invariant [OF init_invariant, of attrs "splitlines content1"]
    obtain s1 where s1: "for_lines attrs init_pstate (splitlines content1) = Some s1"
      "uid_to_dn s1 = Map.empty" by blast
    from for_lines_edges [OF s1(2), of attrs further] for_lines_nodes [OF s1(2), of attrs further]
    obtain s2 new where s2: "for_lines attrs s1 further = Some s2" "edges s2 = edges s1 @ new"
      "set (nodes s1) \<subseteq> set (nodes s2)" by auto
    have "for_lines attrs init_pstate (splitlines content) = Some s2"
      unfolding sp using for_lines_append [of attrs init_pstate "splitlines content1" further] s1(1) s2(1)
      by simp
    with s1(1) s2(2,3)
    show "\<exists>ns1 es1 ns es new. parse_ldif content1 attrs = Some (ns1, es1)
               \<and> parse_ldif content attrs = Some (ns, es)
               \<and> es = es1 @ new \<and> set ns1 \<subseteq> set ns"
      by (simp add: parse_ldif_def)
  qed
  have order: "\<exists>s1 new. for_lines attrs s ls = Some s1 \<and> edges s1 = edges s @ new
            \<and> set (nodes s) \<subseteq> set (nodes s1)"
    using for_lines_edges [OF inv, of attrs ls] for_lines_nodes [OF inv, of attrs ls] by auto
  have twice: "\<exists>s1 s2 new. step attrs s raw = Some s1 \<and> step attrs s1 raw = Some s2
            \<and> edges s1 = edges s @ new \<and> edges s2 = edges s @ new @ new"
    using inv by (rule step_twice)
  have d1: "distinct (nodes s)"
    using for_lines_nodes [OF init_invariant, of attrs before] assms
    by (auto simp add: init_pstate_def)
  have both: "current_type s = Some User \<and> startswith (strip u1) ''uid:''
            \<and> startswith (strip u2) ''uid:'' \<longrightarrow>
            (\<exists>s2. for_lines attrs s [u1, u2] = Some s2
               \<and> set (nodes s2) =
                   {(current_dn s, strip (after_colon (strip u1)), User),
                    (current_dn s, strip (after_colon (strip u2)), User)} \<union> set (nodes s))"
    by (auto simp add: step_uid)
  from whole prefix order twice d1 both show ?thesis by blast
qed

theorem C9_edges_sequence_nodes_set_of_triples_witness:
  "(\<exists>ns es. parse_ldif
       ''dn: cn=g,dc=x\<newline>objectClass: posixGroup\<newline>cn: g\<newline>cn: g\<newline>cn: h\<newline>member: uid=b,dc=x\<newline>member: uid=a,dc=x\<newline>member: uid=b,dc=x\<newline>''
       [''member''] = Some (ns, es)
      \<and> es = [(''uid=b,dc=x'', Some ''cn=g,dc=x'', ''memberOf''),
               (''uid=a,dc=x'', Some ''cn=g,dc=x'', ''memberOf''),
               (''uid=b,dc=x'', Some ''cn=g,dc=x'', ''memberOf'')]
      \<and> set ns = {(Some ''cn=g,dc=x'', ''g'', Group), (Some ''cn=g,dc=x'', ''h'', Group)}
      \<and> distinct ns)
   \<and> (\<exists>s1 s2. step [''member''] init_pstate ''member: uid=a,dc=x'' = Some s1
       \<and> step [''member''] s1 ''member: uid=a,dc=x'' = Some s2
       \<and> edges s2 = [(''uid=a,dc=x'', None, ''memberOf''), (''uid=a,dc=x'', None, ''memberOf'')])
   \<and> (\<exists>s0. for_lines [''member''] init_pstate [''objectClass: posixAccount''] = Some s0
         \<and> (\<exists>s2. for_lines [''member''] s0 [''uid: alice'', ''uid: al''] = Some s2
               \<and> set (nodes s2) = {(None, ''alice'', User), (None, ''al'', User)}))"
proof -
  let ?doc = "''dn: cn=g,dc=x\<newline>objectClass: posixGroup\<newline>cn: g\<newline>cn: g\<newline>cn: h\<newline>member: uid=b,dc=x\<newline>member: uid=a,dc=x\<newline>member: uid=b,dc=x\<newline>''"
  have r: "for_lines [''member''] init_pstate [] = Some init_pstate" by simp
  have ee: "concat (map (emitted_edges [''member'']) (contexts None None (splitlines ?doc)))
             = [(''uid=b,dc=x'', Some ''cn=g,dc=x'', ''memberOf''),
                (''uid=a,dc=x'', Some ''cn=g,dc=x'', ''memberOf''),
                (''uid=b,dc=x'', Some ''cn=g,dc=x'', ''memberOf'')]"
    by code_simp
  have en: "concat (map emitted_nodes (contexts None None (splitlines ?doc)))
             = [(Some ''cn=g,dc=x'', ''g'', Group), (Some ''cn=g,dc=x'', ''g'', Group),
                (Some ''cn=g,dc=x'', ''h'', Group)]"
    by code_simp
  from C9_edges_sequence_nodes_set_of_triples [OF r, of ?doc]
  have whole: "\<exists>ns es. parse_ldif ?doc [''member''] = Some (ns, es)
      \<and> es = [(''uid=b,dc=x'', Some ''cn=g,dc=x'', ''memberOf''),
               (''uid=a,dc=x'', Some ''cn=g,dc=x'', ''memberOf''),
               (''uid=b,dc=x'', Some ''cn=g,dc=x'', ''memberOf'')]
      \<and> set ns = {(Some ''cn=g,dc=x'', ''g'', Group), (Some ''cn=g,dc=x'', ''h'', Group)}
      \<and> distinct ns"
    unfolding ee en by auto
  have ev: "map_option edges (step [''member''] init_pstate ''member: uid=a,dc=x'')
              = Some [(''uid=a,dc=x'', None, ''memberOf'')]"
    by code_simp
  from C9_edges_sequence_nodes_set_of_triples [OF r, of "''x''" "''x''" "[]" "[]" "''member: uid=a,dc=x''"]
  obtain s1 s2 new where t: "step [''member''] init_pstate ''member: uid=a,dc=x'' = Some s1"
    "step [''member''] s1 ''member: uid=a,dc=x'' = Some s2"
    "edges s1 = edges init_pstate @ new" "edges s2 = edges init_pstate @ new @ new"
    by blast
  from ev t(1,3) have "new = [(''uid=a,dc=x'', None, ''memberOf'')]"
    by (simp add: init_pstate_def)
  with t have first: "\<exists>s1 s2. step [''member''] init_pstate ''member: uid=a,dc=x'' = Some s1
       \<and> step [''member''] s1 ''member: uid=a,dc=x'' = Some s2
       \<and> edges s2 = [(''uid=a,dc=x'', None, ''memberOf''), (''uid=a,dc=x'', None, ''memberOf'')]"
    by (simp add: init_pstate_def)
  obtain s0 where s0: "for_lines [''member''] init_pstate [''objectClass: posixAccount''] = Some s0"
    using for_lines_invariant [OF init_invariant] by blast
  have ev0: "map_option current_type (for_lines [''member''] init_pstate [''objectClass: posixAccount''])
               = Some (Some User)"
      "map_option current_dn (for_lines [''member''] init_pstate [''objectClass: posixAccount''])
               = Some None"
      "map_option nodes (for_lines [''member''] init_pstate [''objectClass: posixAccount''])
               = Some []"
    by code_simp+
  have f: "current_type s0 = Some User" "current_dn s0 = None" "nodes s0 = []"
    using ev0 s0 by simp_all
  have u: "startswith (strip ''uid: alice'') ''uid:''" "startswith (strip ''uid: al'') ''uid:''"
    by code_simp+
  have v: "strip (after_colon (strip ''uid: alice'')) = ''alice''"
    "strip (after_colon (strip ''uid: al'')) = ''al''"
    by code_simp+
  from C9_edges_sequence_nodes_set_of_triples [OF s0, of "''x''" "''x''" "[]" "[]" "''x''" "''uid: alice''" "''uid: al''"]
    f u
  have "\<exists>s2. for_lines [''member''] s0 [''uid: alice'', ''uid: al''] = Some s2
               \<and> set (nodes s2) = {(None, ''alice'', User), (None, ''al'', User)}"
    unfolding v by auto
  with s0 first whole show ?thesis by blast
qed

text \<open>
  C10 (amended). The lines before the first \<^verbatim>\<open>dn:\<close> line are processed with the current
  DN \<^verbatim>\<open>None\<close>: after them the current DN is still \<^verbatim>\<open>None\<close>, and every edge found has
  the target \<^verbatim>\<open>None\<close> and every node the dn \<^verbatim>\<open>None\<close>. A further line there whose
  attribute name is a configured attribute other than \<^verbatim>\<open>memberUid\<close>, with a non-empty
  value and not taken by an earlier branch, appends the edge (value, \<^verbatim>\<open>None\<close>,
  \<^verbatim>\<open>memberOf\<close>); a \<^verbatim>\<open>uid:\<close> line there, when the most recent type-assigning
  \<^verbatim>\<open>objectClass\<close> line before it assigns User, adds the node (\<^verbatim>\<open>None\<close>, value, User).
\<close>

theorem C10_lines_before_first_dn:
  assumes "\<forall>l\<in>set pre. \<not> is_dn_line l"
  shows "\<exists>s. for_lines attrs init_pstate pre = Some s \<and> current_dn s = None
           \<and> (\<forall>e\<in>set (edges s). fst (snd e) = None)
           \<and> (\<forall>n\<in>set (nodes s). fst n = None)
           \<and> (attr \<in> set attrs \<and> attr \<noteq> ''memberUid'' \<and> CHR '':'' \<in> set (strip raw)
                \<and> before_colon (strip raw) = attr \<and> strip (after_colon (strip raw)) \<noteq> []
                \<and> attr \<noteq> ''dn'' \<and> attr \<noteq> ''objectClass''
                \<and> \<not> (attr = ''uid'' \<and> current_type s = Some User)
                \<and> \<not> (attr = ''cn'' \<and> current_type s = Some Group) \<longrightarrow>
                (\<exists>s' new. step attrs s raw = Some s' \<and> edges s' = edges s @ new
                   \<and> (strip (after_colon (strip raw)), None, ''memberOf'') \<in> set new))
           \<and> (startswith (strip raw) ''uid:'' \<and> governing pre = Some User \<longrightarrow>
                (\<exists>s'. step attrs s raw = Some s'
                   \<and> nodes s' = List.insert (None, strip (after_colon (strip raw)), User) (nodes s)))"
proof -
  have i: "current_dn init_pstate = None" "\<forall>e\<in>set (edges init_pstate). fst (snd e) = None"
    "\<forall>n\<in>set (nodes init_pstate). fst n = None" "current_type init_pstate = None"
    by (simp_all add: init_pstate_def)
  from for_lines_preamble [OF init_invariant i(1,2,3) assms, of attrs]
  obtain s where s: "for_lines attrs init_pstate pre = Some s" "uid_to_dn s = Map.empty"
    "current_dn s = None" "\<forall>e\<in>set (edges s). fst (snd e) = None"
    "\<forall>n\<in>set (nodes s). fst n = None"
    "current_type s = (case governing pre of None \<Rightarrow> current_type init_pstate | Some t \<Rightarrow> Some t)"
    by blast
  have ct: "current_type s = governing pre"
    using s(6) i(4) by (simp split: option.splits)
  have member: "attr \<in> set attrs \<and> attr \<noteq> ''memberUid'' \<and> CHR '':'' \<in> set (strip raw)
                \<and> before_colon (strip raw) = attr \<and> strip (after_colon (strip raw)) \<noteq> []
                \<and> attr \<noteq> ''dn'' \<and> attr \<noteq> ''objectClass''
                \<and> \<not> (attr = ''uid'' \<and> current_type s = Some User)
                \<and> \<not> (attr = ''cn'' \<and> current_type s = Some Group) \<longrightarrow>
                (\<exists>s' new. step attrs s raw = Some s' \<and> edges s' = edges s @ new
                   \<and> (strip (after_colon (strip raw)), None, ''memberOf'') \<in> set new)"
  proof
    let ?line = "strip raw"
    assume a: "attr \<in> set attrs \<and> attr \<noteq> ''memberUid'' \<and> CHR '':'' \<in> set (strip raw)
                \<and> before_colon (strip raw) = attr \<and> strip (after_colon (strip raw)) \<noteq> []
                \<and> attr \<noteq> ''dn'' \<and> attr \<noteq> ''objectClass''
                \<and> \<not> (attr = ''uid'' \<and> current_type s = Some User)
                \<and> \<not> (attr = ''cn'' \<and> current_type s = Some Group)"
    have sw: "startswith ?line (attr @ '':'')"
      using startswith_before_colon [of ?line] a by auto
    have nodn: "\<not> is_dn_line raw"
      using before_colon_startswith [of ?line "''dn''"] a by (auto simp add: is_dn_line_def)
    have nooc: "\<not> startswith ?line ''objectClass:''"
      using before_colon_startswith [of ?line "''objectClass''"] a by auto
    have nouid: "\<not> (startswith ?line ''uid:'' \<and> current_type s = Some User)"
      using before_colon_startswith [of ?line "''uid''"] a by auto
    have nocn: "\<not> (startswith ?line ''cn:'' \<and> current_type s = Some Group)"
      using before_colon_startswith [of ?line "''cn''"] a by auto
    have st: "step attrs s raw = Some (s\<lparr>edges := edges s @ line_edges attrs (current_dn s) ?line\<rparr>)"
      using nodn nooc nouid nocn s(2) by (rule step_other)
    have "(strip (after_colon ?line), current_dn s, ''memberOf'')
               \<in> set (line_edges attrs (current_dn s) ?line)"
      using a sw by (auto simp add: line_edges_def)
    with st s(3) show "\<exists>s' new. step attrs s raw = Some s' \<and> edges s' = edges s @ new
                   \<and> (strip (after_colon (strip raw)), None, ''memberOf'') \<in> set new"
      by auto
  qed
  have uid: "startswith (strip raw) ''uid:'' \<and> governing pre = Some User \<longrightarrow>
                (\<exists>s'. step attrs s raw = Some s'
                   \<and> nodes s' = List.insert (None, strip (after_colon (strip raw)), User) (nodes s))"
    using s(3) ct by (auto simp add: step_uid)
  from s(1,3,4,5) member uid show ?thesis by blast
qed

theorem C10_lines_before_first_dn_witness:
  "\<exists>s. for_lines [''member'', ''memberUid''] init_pstate
          [''objectClass: inetOrgPerson'', ''member: uid=a,dc=x''] = Some s
       \<and> current_dn s = None
       \<and> (\<exists>s' new. step [''member'', ''memberUid''] s ''member: uid=b,dc=x'' = Some s'
             \<and> edges s' = edges s @ new \<and> (''uid=b,dc=x'', None, ''memberOf'') \<in> set new)
       \<and> (\<exists>s'. step [''member'', ''memberUid''] s ''uid: alice'' = Some s'
             \<and> nodes s' = List.insert (None, ''alice'', User) (nodes s))"
proof -
  let ?pre = "[''objectClass: inetOrgPerson'', ''member: uid=a,dc=x'']"
  have nd: "\<forall>l\<in>set ?pre. \<not> is_dn_line l" by code_simp
  have gv: "governing ?pre = Some User" by code_simp
  have m: "''member'' \<in> set [''member'', ''memberUid'']" "''member'' \<noteq> ''memberUid''"
    "''member'' \<noteq> ''dn''" "''member'' \<noteq> ''objectClass''" "''member'' \<noteq> ''uid''" "''member'' \<noteq> ''cn''"
    by simp_all
  have c: "CHR '':'' \<in> set (strip ''member: uid=b,dc=x'')" by code_simp
  have b: "before_colon (strip ''member: uid=b,dc=x'') = ''member''" by code_simp
  have v: "strip (after_colon (strip ''member: uid=b,dc=x'')) = ''uid=b,dc=x''" by code_simp
  have u: "startswith (strip ''uid: alice'') ''uid:''" by code_simp
  have w: "strip (after_colon (strip ''uid: alice'')) = ''alice''" by code_simp
  from C10_lines_before_first_dn [OF nd, of "[''member'', ''memberUid'']" "''member''" "''member: uid=b,dc=x''"]
  obtain s where s: "for_lines [''member'', ''memberUid''] init_pstate ?pre = Some s"
    "current_dn s = None"
    "\<exists>s' new. step [''member'', ''memberUid''] s ''member: uid=b,dc=x'' = Some s'
             \<and> edges s' = edges s @ new \<and> (''uid=b,dc=x'', None, ''memberOf'') \<in> set new"
    using m c b v by auto
  from C10_lines_before_first_dn [OF nd, of "[''member'', ''memberUid'']" "''member''" "''uid: alice''"]
    s(1) gv u w
  have "\<exists>s'. step [''member'', ''memberUid''] s ''uid: alice'' = Some s'
             \<and> nodes s' = List.insert (None, ''alice'', User) (nodes s)"
    by auto
  with s show ?thesis by blast
qed

text \<open>
  C10 as stated fails for a membership line with an empty value: before any \<^verbatim>\<open>dn:\<close>
  line, too, the test \<^verbatim>\<open>if member_dn:\<close> drops it, and no edge with the target
  \<^verbatim>\<open>None\<close> is found.
\<close>

theorem C10_counterexample:
  "before_colon (strip ''member:'') = ''member''
   \<and> parse_ldif ''member:\<newline>dn: cn=g,dc=x\<newline>'' [''member''] = Some ([], [])"
  by code_simp

end
